theory Spec2Isabelle
  imports Complex_Main "HOL-Library.Word" "HOL-Library.Signed_Division" "HOL-Library.Monad_Syntax"
begin

unbundle bit_operations_syntax

section \<open>Identicon generation (package goavatar)\<close>

text \<open>
  The package exports \<open>Make\<close> and six option constructors. \<open>Make\<close> hashes the input
  string with MD5, renders the digest as 32 lower-case hexadecimal characters, and uses the
  bytes of that hexadecimal string (not the 16 raw digest bytes) to choose colours and grid
  cells. Go's \<open>int\<close> is modelled by \<open>int\<close>: the source adds and subtracts one and divides by
  two, so no value leaves the 64-bit range when the arguments are in it. \<open>uint8\<close> is
  \<open>8 word\<close>. A Go string is a sequence of bytes, here a \<open>string\<close>; \<open>s[i]\<close> is a byte,
  obtained with \<open>of_char\<close>. A run-time panic is the value \<open>None\<close>.
\<close>

type_synonym uint8 = "8 word"
type_synonym uint32 = "32 word"

subsection \<open>The standard library: crypto/md5 and encoding/hex\<close>

text \<open>
  \<open>md5.Sum\<close> is the MD5 function of RFC 1321: the message is padded with the byte 0x80, zero
  bytes up to 56 modulo 64 and the bit length as 8 little-endian bytes; each 64-byte block
  runs 64 rounds over four 32-bit words; the digest is the four words, little-endian.
\<close>

definition md5_shift :: "nat list" where
  "md5_shift =
    [7, 12, 17, 22, 7, 12, 17, 22, 7, 12, 17, 22, 7, 12, 17, 22,
     5, 9, 14, 20, 5, 9, 14, 20, 5, 9, 14, 20, 5, 9, 14, 20,
     4, 11, 16, 23, 4, 11, 16, 23, 4, 11, 16, 23, 4, 11, 16, 23,
     6, 10, 15, 21, 6, 10, 15, 21, 6, 10, 15, 21, 6, 10, 15, 21]"

definition md5_table :: "uint32 list" where
  "md5_table =
    [0xd76aa478, 0xe8c7b756, 0x242070db, 0xc1bdceee, 0xf57c0faf, 0x4787c62a, 0xa8304613, 0xfd469501,
     0x698098d8, 0x8b44f7af, 0xffff5bb1, 0x895cd7be, 0x6b901122, 0xfd987193, 0xa679438e, 0x49b40821,
     0xf61e2562, 0xc040b340, 0x265e5a51, 0xe9b6c7aa, 0xd62f105d, 0x02441453, 0xd8a1e681, 0xe7d3fbc8,
     0x21e1cde6, 0xc33707d6, 0xf4d50d87, 0x455a14ed, 0xa9e3e905, 0xfcefa3f8, 0x676f02d9, 0x8d2a4c8a,
     0xfffa3942, 0x8771f681, 0x6d9d6122, 0xfde5380c, 0xa4beea44, 0x4bdecfa9, 0xf6bb4b60, 0xbebfbc70,
     0x289b7ec6, 0xeaa127fa, 0xd4ef3085, 0x04881d05, 0xd9d4d039, 0xe6db99e5, 0x1fa27cf8, 0xc4ac5665,
     0xf4292244, 0x432aff97, 0xab9423a7, 0xfc93a039, 0x655b59c3, 0x8f0ccc92, 0xffeff47d, 0x85845dd1,
     0x6fa87e4f, 0xfe2ce6e0, 0xa3014314, 0x4e0811a1, 0xf7537e82, 0xbd3af235, 0x2ad7d2bb, 0xeb86d391]"

type_synonym md5_state = "uint32 \<times> uint32 \<times> uint32 \<times> uint32"

definition md5_round :: "uint32 list \<Rightarrow> nat \<Rightarrow> md5_state \<Rightarrow> md5_state" where
  "md5_round M i s =
    (case s of (a, b, c, d) \<Rightarrow>
      let f = (if i < 16 then (b AND c) OR (NOT b AND d)
               else if i < 32 then (d AND b) OR (NOT d AND c)
               else if i < 48 then b XOR c XOR d
               else c XOR (b OR NOT d));
          g = (if i < 16 then i
               else if i < 32 then (5 * i + 1) mod 16
               else if i < 48 then (3 * i + 5) mod 16
               else (7 * i) mod 16);
          t = a + f + md5_table ! i + M ! g
      in (d, b + word_rotl (md5_shift ! i) t, b, c))"

definition le_uint32 :: "uint8 list \<Rightarrow> uint32" where
  "le_uint32 bs =
    ucast (bs ! 0) OR push_bit 8 (ucast (bs ! 1)) OR push_bit 16 (ucast (bs ! 2))
      OR push_bit 24 (ucast (bs ! 3))"

definition le_bytes :: "uint32 \<Rightarrow> uint8 list" where
  "le_bytes w = map (\<lambda>j. ucast (drop_bit (8 * j) w)) [0..<4]"

definition md5_block :: "md5_state \<Rightarrow> uint8 list \<Rightarrow> md5_state" where
  "md5_block s blk =
    (let M = map (\<lambda>j. le_uint32 (take 4 (drop (4 * j) blk))) [0..<16]
     in case (s, fold (md5_round M) [0..<64] s) of
          ((a, b, c, d), (a', b', c', d')) \<Rightarrow> (a + a', b + b', c + c', d + d'))"

function md5_blocks :: "md5_state \<Rightarrow> uint8 list \<Rightarrow> md5_state" where
  "md5_blocks s bs =
    (if length bs < 64 then s else md5_blocks (md5_block s (take 64 bs)) (drop 64 bs))"
  by pat_completeness auto
termination
  by (relation "measure (\<lambda>(s, bs). length bs)") auto

declare md5_blocks.simps [simp del]

definition md5_pad :: "uint8 list \<Rightarrow> uint8 list" where
  "md5_pad msg =
    msg @ [0x80] @ replicate ((119 - length msg mod 64) mod 64) 0
      @ map (\<lambda>j. ucast (drop_bit (8 * j) (8 * of_nat (length msg) :: 64 word))) [0..<8]"

definition md5_Sum :: "uint8 list \<Rightarrow> uint8 list" where
  "md5_Sum msg =
    (case md5_blocks (0x67452301, 0xefcdab89, 0x98badcfe, 0x10325476) (md5_pad msg) of
       (a, b, c, d) \<Rightarrow> le_bytes a @ le_bytes b @ le_bytes c @ le_bytes d)"

definition hextable :: string where
  "hextable = ''0123456789abcdef''"

definition hex_EncodeToString :: "uint8 list \<Rightarrow> string" where
  "hex_EncodeToString src =
    concat (map (\<lambda>v. [hextable ! unat (drop_bit 4 v), hextable ! unat (v AND 0x0f)]) src)"

definition generateHash :: "string \<Rightarrow> string" where
  "generateHash data = hex_EncodeToString (md5_Sum (map of_char data))"

subsection \<open>The standard library: image, image/color and image/draw\<close>

text \<open>
  A \<open>color.RGBA\<close> is four bytes. An \<open>image.RGBA\<close> whose rectangle starts at the origin is its
  byte buffer \<open>Pix\<close> (four bytes a pixel, rows of \<open>Stride\<close> bytes) and its width and height.
  \<open>Set\<close> ignores a point outside the rectangle and otherwise stores the four channels as
  they are (the colour model of an RGBA image returns an RGBA colour unchanged).
\<close>

datatype color_RGBA = RGBA uint8 uint8 uint8 uint8

record image_RGBA =
  Pix :: "uint8 list"
  Stride :: int
  Dx :: int
  Dy :: int

text \<open>
  \<open>image.NewRGBA(image.Rect(0, 0, w, h))\<close>. The length of the buffer is
  \<open>mul3NonNeg(4, w, h)\<close>: the product, or \<open>-1\<close> when an argument is negative or a product
  does not fit the 64-bit \<open>int\<close> (computed through \<open>bits.Mul64\<close>, whose high word must be zero
  twice, and a last conversion to \<open>int\<close>); \<open>NewRGBA\<close> panics on \<open>-1\<close>
  ("Rectangle has huge or negative dimensions"). \<open>zeroRGBA\<close> is the image it returns
  otherwise. Two things are outside the model: an allocation that fails although the length
  fits \<open>int\<close> (memory is unbounded up to that length), and a negative side, for which
  \<open>image.Rect\<close> swaps the corners; \<open>Make\<close> passes a size of at least 64.
\<close>

definition mul3NonNeg :: "int \<Rightarrow> int \<Rightarrow> int \<Rightarrow> int" where
  "mul3NonNeg x y z =
    (if x < 0 \<or> y < 0 \<or> z < 0 then - 1
     else if 2 ^ 64 \<le> x * y then - 1
     else if 2 ^ 64 \<le> x * y * z then - 1
     else if 2 ^ 63 \<le> x * y * z then - 1
     else x * y * z)"

definition zeroRGBA :: "int \<Rightarrow> int \<Rightarrow> image_RGBA" where
  "zeroRGBA w h = \<lparr>Pix = replicate (nat (4 * w * h)) 0, Stride = 4 * w, Dx = w, Dy = h\<rparr>"

definition NewRGBA :: "int \<Rightarrow> int \<Rightarrow> image_RGBA option" where
  "NewRGBA w h = (if mul3NonNeg 4 w h < 0 then None else Some (zeroRGBA w h))"

definition inBounds :: "image_RGBA \<Rightarrow> int \<Rightarrow> int \<Rightarrow> bool" where
  "inBounds img x y \<longleftrightarrow> 0 \<le> x \<and> x < Dx img \<and> 0 \<le> y \<and> y < Dy img"

definition PixOffset :: "image_RGBA \<Rightarrow> int \<Rightarrow> int \<Rightarrow> nat" where
  "PixOffset img x y = nat (y * Stride img + x * 4)"

definition Set_RGBA :: "image_RGBA \<Rightarrow> int \<Rightarrow> int \<Rightarrow> color_RGBA \<Rightarrow> image_RGBA" where
  "Set_RGBA img x y c =
    (if \<not> inBounds img x y then img
     else case c of RGBA r g b a \<Rightarrow>
       let i = PixOffset img x y
       in img\<lparr>Pix := (Pix img)[i := r, i + 1 := g, i + 2 := b, i + 3 := a]\<rparr>)"

definition RGBAAt :: "image_RGBA \<Rightarrow> int \<Rightarrow> int \<Rightarrow> color_RGBA" where
  "RGBAAt img x y =
    (if \<not> inBounds img x y then RGBA 0 0 0 0
     else let i = PixOffset img x y
          in RGBA (Pix img ! i) (Pix img ! (i + 1)) (Pix img ! (i + 2)) (Pix img ! (i + 3)))"

text \<open>
  \<open>draw.Draw(img, img.Bounds(), &image.Uniform{c}, image.Point{}, draw.Src)\<close>: every pixel of
  the image is replaced by the colour \<open>c\<close>.
\<close>

definition draw_Src_Uniform :: "image_RGBA \<Rightarrow> color_RGBA \<Rightarrow> image_RGBA" where
  "draw_Src_Uniform img c =
    (let w = Dx img; h = Dy img
     in fold (\<lambda>y img. fold (\<lambda>x img. Set_RGBA img x y c) [0..w - 1] img) [0..h - 1] img)"

text \<open>The buffer of an image has four bytes for each pixel of its rectangle.\<close>

definition wellFormed :: "image_RGBA \<Rightarrow> bool" where
  "wellFormed img \<longleftrightarrow>
     0 \<le> Dx img \<and> 0 \<le> Dy img \<and> Stride img = 4 * Dx img \<and>
     length (Pix img) = nat (4 * Dx img * Dy img)"

subsection \<open>Options\<close>

record options =
  size' :: int
  gridSize :: int
  bgColor :: color_RGBA
  fgColors :: "color_RGBA list"
  layers :: int

text \<open>
  An \<open>OptFunc\<close> is a closure over a pointer to the options; here a function from the
  options to the updated options, or to \<open>None\<close> where the closure panics.
\<close>

type_synonym OptFunc = "options \<Rightarrow> options option"

definition WithSize :: "int \<Rightarrow> OptFunc" where
  "WithSize s = (\<lambda>conf. Some (if s \<ge> 64 then conf\<lparr>size' := s\<rparr> else conf))"

definition WithGridSize :: "int \<Rightarrow> OptFunc" where
  "WithGridSize g = (\<lambda>conf. Some (if g > 8 then conf\<lparr>gridSize := g\<rparr> else conf))"

definition WithBgColor :: "uint8 \<Rightarrow> uint8 \<Rightarrow> uint8 \<Rightarrow> uint8 \<Rightarrow> OptFunc" where
  "WithBgColor r g b a = (\<lambda>conf. Some (conf\<lparr>bgColor := RGBA r g b a\<rparr>))"

definition WithFgColor :: "uint8 \<Rightarrow> uint8 \<Rightarrow> uint8 \<Rightarrow> uint8 \<Rightarrow> OptFunc" where
  "WithFgColor r g b a = (\<lambda>conf. Some (conf\<lparr>fgColors := [RGBA r g b a]\<rparr>))"

definition WithLayers :: "int \<Rightarrow> OptFunc" where
  "WithLayers n = (\<lambda>conf. Some (if n \<ge> 1 \<and> n \<le> 3 then conf\<lparr>layers := n\<rparr> else conf))"

text \<open>The loop of \<open>WithLayerColor\<close>: append the zero colour while the index is not in the slice.\<close>

function expandColors :: "color_RGBA list \<Rightarrow> int \<Rightarrow> color_RGBA list" where
  "expandColors cs layerIndex =
    (if int (length cs) \<le> layerIndex then expandColors (cs @ [RGBA 0 0 0 0]) layerIndex
     else cs)"
  by pat_completeness auto
termination
  by (relation "measure (\<lambda>(cs, layerIndex). nat (layerIndex + 1 - int (length cs)))") auto

declare expandColors.simps [simp del]

text \<open>The assignment \<open>o.fgColors[layerIndex] = ...\<close> panics on a negative index.\<close>

definition WithLayerColor :: "int \<Rightarrow> uint8 \<Rightarrow> uint8 \<Rightarrow> uint8 \<Rightarrow> uint8 \<Rightarrow> OptFunc" where
  "WithLayerColor layerIndex r g b a =
    (\<lambda>conf.
      let cs = expandColors (fgColors conf) layerIndex
      in if 0 \<le> layerIndex \<and> layerIndex < int (length cs)
         then Some (conf\<lparr>fgColors := cs[nat layerIndex := RGBA r g b a]\<rparr>)
         else None)"

text \<open>\<open>s[i]\<close> on a string: the byte at \<open>i\<close>, a panic outside the string.\<close>

definition byteAt :: "string \<Rightarrow> int \<Rightarrow> uint8 option" where
  "byteAt s i = (if 0 \<le> i \<and> i < int (length s) then Some (of_char (s ! nat i)) else None)"

text \<open>\<open>color.RGBA{hash[0], hash[1], hash[2], 255}\<close>\<close>

definition hashColor :: "string \<Rightarrow> color_RGBA option" where
  "hashColor hash =
    do { h0 \<leftarrow> byteAt hash 0; h1 \<leftarrow> byteAt hash 1; h2 \<leftarrow> byteAt hash 2;
         Some (RGBA h0 h1 h2 255) }"

definition defaultOptions :: "string \<Rightarrow> options option" where
  "defaultOptions hash =
    do { c \<leftarrow> hashColor hash;
         Some \<lparr>size' = 64, gridSize = 8, bgColor = RGBA 240 240 240 255,
               fgColors = [c], layers = 1\<rparr> }"

subsection \<open>Drawing one grid cell\<close>

text \<open>
  \<open>math.Round\<close> rounds to the nearest integer, halves away from zero. \<open>drawPixel\<close> computes
  \<open>float64(k) * float64(imageSize) / float64(gridSize)\<close> in binary64; the model computes
  the same product and quotient on the rationals. The two agree for a positive grid size
  and image size with \<open>4 * (k * imageSize + gridSize) \<le> 2 ^ 53\<close> (lemma
  \<open>scaledFloat64_exact\<close> below: the product is then exact, and the rounded quotient lies on
  the same side of every half-integer as the quotient itself), which holds for every image
  that fits a 64-bit address space. A grid size of zero, where Go divides by a
  floating-point zero, is outside the model; \<open>Make\<close> never passes one.
\<close>

definition math_Round :: "rat \<Rightarrow> int" where
  "math_Round q = (if 0 \<le> q then \<lfloor>q + 1 / 2\<rfloor> else - \<lfloor>- q + 1 / 2\<rfloor>)"

definition scaled :: "int \<Rightarrow> int \<Rightarrow> int \<Rightarrow> int" where
  "scaled k imageSize gridSize' = math_Round (of_int k * of_int imageSize / of_int gridSize')"

definition drawPixel ::
  "image_RGBA \<Rightarrow> int \<Rightarrow> int \<Rightarrow> color_RGBA \<Rightarrow> int \<Rightarrow> int \<Rightarrow> image_RGBA" where
  "drawPixel img gridX gridY c gridSize' imageSize =
    (let startX = scaled gridX imageSize gridSize';
         startY = scaled gridY imageSize gridSize';
         endX = scaled (gridX + 1) imageSize gridSize';
         endY = scaled (gridY + 1) imageSize gridSize';
         endX = (if endX > Dx img then Dx img else endX);
         endY = (if endY > Dy img then Dy img else endY)
     in fold (\<lambda>y img. fold (\<lambda>x img. Set_RGBA img x y c) [startX..endX - 1] img)
          [startY..endY - 1] img)"

text \<open>
  The same bounds in binary64 arithmetic, where every operation returns its exact result
  rounded by a function \<open>fl\<close>. Rounding to nearest leaves every representable number as it
  is, among them \<open>m / 2 ^ e\<close> for \<open>\<bar>m\<bar> < 2 ^ 53\<close> and \<open>e \<le> 1074\<close>, and is monotone; nothing
  else about it is used.
\<close>

definition dyadic53 :: "rat \<Rightarrow> bool" where
  "dyadic53 v \<longleftrightarrow> (\<exists>(m::int) (e::nat). \<bar>m\<bar> < 2 ^ 53 \<and> e \<le> 1074 \<and> v = of_int m / 2 ^ e)"

definition roundsToFloat64 :: "(rat \<Rightarrow> rat) \<Rightarrow> bool" where
  "roundsToFloat64 fl \<longleftrightarrow> (\<forall>v. dyadic53 v \<longrightarrow> fl v = v) \<and> (\<forall>u v. u \<le> v \<longrightarrow> fl u \<le> fl v)"

definition scaledFloat64 :: "(rat \<Rightarrow> rat) \<Rightarrow> int \<Rightarrow> int \<Rightarrow> int \<Rightarrow> int" where
  "scaledFloat64 fl k imageSize gridSize' =
     math_Round (fl (fl (fl (of_int k) * fl (of_int imageSize)) / fl (of_int gridSize')))"

text \<open>
  The points on which \<open>drawPixel\<close> calls \<open>img.Set\<close>, in the order of the calls, for an image
  \<open>w\<close> wide and \<open>h\<close> high.
\<close>

definition blockPixels :: "int \<Rightarrow> int \<Rightarrow> int \<Rightarrow> int \<Rightarrow> int \<Rightarrow> int \<Rightarrow> (int \<times> int) list" where
  "blockPixels w h gridX gridY gridSize' imageSize =
    (let startX = scaled gridX imageSize gridSize';
         startY = scaled gridY imageSize gridSize';
         endX = scaled (gridX + 1) imageSize gridSize';
         endY = scaled (gridY + 1) imageSize gridSize';
         endX = (if endX > w then w else endX);
         endY = (if endY > h then h else endY)
     in concat (map (\<lambda>y. map (\<lambda>x. (x, y)) [startX..endX - 1]) [startY..endY - 1]))"

subsection \<open>Make\<close>

text \<open>\<open>(currentHash[y]>>(x%8))&1 == 1\<close>; the loops only pass \<open>x \<ge> 0\<close>.\<close>

definition pixelOn :: "string \<Rightarrow> int \<Rightarrow> int \<Rightarrow> bool option" where
  "pixelOn currentHash y x =
    do { b \<leftarrow> byteAt currentHash y; Some (drop_bit (nat (x smod 8)) b AND 1 = 1) }"

text \<open>The inner loop over the left half of row \<open>y\<close>, on the list of its columns.\<close>

fun columns ::
  "string \<Rightarrow> color_RGBA \<Rightarrow> options \<Rightarrow> int \<Rightarrow> int list \<Rightarrow> image_RGBA \<Rightarrow> image_RGBA option" where
  "columns currentHash avatarColor conf y [] img = Some img"
| "columns currentHash avatarColor conf y (x # xs) img =
    do { on \<leftarrow> pixelOn currentHash y x;
         columns currentHash avatarColor conf y xs
           (if on
            then drawPixel
                   (drawPixel img x y avatarColor (gridSize conf) (size' conf))
                   (gridSize conf - 1 - x) y avatarColor (gridSize conf) (size' conf)
            else img) }"

text \<open>
  The centre column of row \<open>y\<close>, drawn when the grid size is odd (\<open>isOdd\<close>, which \<open>Make\<close>
  computes once before the loops from the grid size, which the loops do not change).
\<close>

definition centre ::
  "string \<Rightarrow> color_RGBA \<Rightarrow> options \<Rightarrow> int \<Rightarrow> image_RGBA \<Rightarrow> image_RGBA option" where
  "centre currentHash avatarColor conf y img =
    (if gridSize conf smod 2 \<noteq> 0
     then do { let mid = gridSize conf sdiv 2;
               on \<leftarrow> pixelOn currentHash y mid;
               Some (if on then drawPixel img mid y avatarColor (gridSize conf) (size' conf)
                     else img) }
     else Some img)"

text \<open>The loop over the rows.\<close>

fun rows ::
  "string \<Rightarrow> color_RGBA \<Rightarrow> options \<Rightarrow> int list \<Rightarrow> image_RGBA \<Rightarrow> image_RGBA option" where
  "rows currentHash avatarColor conf [] img = Some img"
| "rows currentHash avatarColor conf (y # ys) img =
    do { img \<leftarrow> columns currentHash avatarColor conf y [0..gridSize conf sdiv 2 - 1] img;
         img \<leftarrow> centre currentHash avatarColor conf y img;
         rows currentHash avatarColor conf ys img }"

text \<open>The colour of layer \<open>l\<close>: the caller's colour at that index unless it is absent or zero.\<close>

definition layerColor :: "options \<Rightarrow> string \<Rightarrow> int \<Rightarrow> color_RGBA option" where
  "layerColor conf currentHash l =
    (if l < int (length (fgColors conf))
     then (let avatarColor = fgColors conf ! nat l
           in if avatarColor = RGBA 0 0 0 0 then hashColor currentHash else Some avatarColor)
     else hashColor currentHash)"

text \<open>The loop over the layers; the hash of a layer after the first is the hash of the previous one.\<close>

fun layerLoop :: "options \<Rightarrow> int list \<Rightarrow> string \<Rightarrow> image_RGBA \<Rightarrow> image_RGBA option" where
  "layerLoop conf [] currentHash img = Some img"
| "layerLoop conf (l # ls) currentHash img =
    do { let currentHash = (if l > 0 then generateHash currentHash else currentHash);
         avatarColor \<leftarrow> layerColor conf currentHash l;
         img \<leftarrow> rows currentHash avatarColor conf [0..gridSize conf - 1] img;
         layerLoop conf ls currentHash img }"

fun applyOpts :: "OptFunc list \<Rightarrow> options \<Rightarrow> options option" where
  "applyOpts [] conf = Some conf"
| "applyOpts (opt # opts) conf = do { conf \<leftarrow> opt conf; applyOpts opts conf }"

definition Make :: "string \<Rightarrow> OptFunc list \<Rightarrow> image_RGBA option" where
  "Make input opts =
    do { let hash = generateHash input;
         conf \<leftarrow> defaultOptions hash;
         conf \<leftarrow> applyOpts opts conf;
         img \<leftarrow> NewRGBA (size' conf) (size' conf);
         let img = draw_Src_Uniform img (bgColor conf);
         layerLoop conf [0..layers conf - 1] hash img }"

subsection \<open>The pattern of a layer\<close>

text \<open>
  \<open>Make\<close> keeps no pattern: it calls \<open>drawPixel\<close> for a cell as soon as the cell's bit is
  read. The pattern of a layer is the list of the cells for which the loops over the rows
  and columns call \<open>drawPixel\<close>, in the order of the calls. The functions below are the
  loops \<open>columns\<close>, \<open>centre\<close> and \<open>rows\<close> with every call \<open>drawPixel img x y ...\<close> replaced by
  the cell \<open>(x, y)\<close>; \<open>g\<close> is the grid size.
\<close>

fun columnCells :: "string \<Rightarrow> int \<Rightarrow> int \<Rightarrow> int list \<Rightarrow> (int \<times> int) list option" where
  "columnCells currentHash g y [] = Some []"
| "columnCells currentHash g y (x # xs) =
    do { on \<leftarrow> pixelOn currentHash y x;
         cells \<leftarrow> columnCells currentHash g y xs;
         Some ((if on then [(x, y), (g - 1 - x, y)] else []) @ cells) }"

definition centreCells :: "string \<Rightarrow> int \<Rightarrow> int \<Rightarrow> (int \<times> int) list option" where
  "centreCells currentHash g y =
    (if g smod 2 \<noteq> 0
     then do { let mid = g sdiv 2;
               on \<leftarrow> pixelOn currentHash y mid;
               Some (if on then [(mid, y)] else []) }
     else Some [])"

fun rowCells :: "string \<Rightarrow> int \<Rightarrow> int list \<Rightarrow> (int \<times> int) list option" where
  "rowCells currentHash g [] = Some []"
| "rowCells currentHash g (y # ys) =
    do { left \<leftarrow> columnCells currentHash g y [0..g sdiv 2 - 1];
         mid \<leftarrow> centreCells currentHash g y;
         cells \<leftarrow> rowCells currentHash g ys;
         Some (left @ mid @ cells) }"

definition layerCells :: "string \<Rightarrow> int \<Rightarrow> (int \<times> int) list option" where
  "layerCells currentHash g = rowCells currentHash g [0..g - 1]"

text \<open>Cell \<open>(x, y)\<close> is on in the layer of hash \<open>currentHash\<close>.\<close>

definition cellOn :: "string \<Rightarrow> int \<Rightarrow> int \<Rightarrow> int \<Rightarrow> bool" where
  "cellOn currentHash g x y =
    (case layerCells currentHash g of None \<Rightarrow> False | Some cells \<Rightarrow> (x, y) \<in> set cells)"

subsection \<open>The layers as the specification words them\<close>

text \<open>
  The digest of layer 0 is the hash of the input; the digest of a later layer is the hash
  of the digest of the layer before it.
\<close>

fun layerDigest :: "string \<Rightarrow> nat \<Rightarrow> string" where
  "layerDigest input 0 = generateHash input"
| "layerDigest input (Suc l) = generateHash (layerDigest input l)"

text \<open>
  The colour of layer \<open>l\<close>: the caller's colour at index \<open>l\<close> if there is one and it is not
  the zero colour, otherwise the first three bytes of the layer's digest with alpha 255.
\<close>

definition specLayerColor :: "options \<Rightarrow> string \<Rightarrow> nat \<Rightarrow> color_RGBA option" where
  "specLayerColor conf digest l =
    (if l < length (fgColors conf) \<and> fgColors conf ! l \<noteq> RGBA 0 0 0 0
     then Some (fgColors conf ! l)
     else hashColor digest)"

text \<open>Each layer of the list drawn with its own digest and colour, in order.\<close>

fun specLayers :: "options \<Rightarrow> string \<Rightarrow> nat list \<Rightarrow> image_RGBA \<Rightarrow> image_RGBA option" where
  "specLayers conf input [] img = Some img"
| "specLayers conf input (l # ls) img =
    do { avatarColor \<leftarrow> specLayerColor conf (layerDigest input l) l;
         img \<leftarrow> rows (layerDigest input l) avatarColor conf [0..gridSize conf - 1] img;
         specLayers conf input ls img }"

subsection \<open>Auxiliary notions\<close>

text \<open>Bit \<open>x mod 8\<close> of byte \<open>y\<close> of a hash.\<close>

definition hashBit :: "string \<Rightarrow> int \<Rightarrow> int \<Rightarrow> bool" where
  "hashBit h y x = bit (of_char (h ! nat y) :: uint8) (nat (x mod 8))"

text \<open>The cells of row \<open>y\<close>, when the row is within the hash.\<close>

definition rowOf :: "string \<Rightarrow> int \<Rightarrow> int \<Rightarrow> (int \<times> int) list" where
  "rowOf h g y =
     concat (map (\<lambda>x. if hashBit h y x then [(x, y), (g - 1 - x, y)] else []) [0..g div 2 - 1])
       @ (if odd g \<and> hashBit h y (g div 2) then [(g div 2, y)] else [])"

text \<open>Drawing a list of cells in one colour.\<close>

definition drawCells ::
  "options \<Rightarrow> color_RGBA \<Rightarrow> (int \<times> int) list \<Rightarrow> image_RGBA \<Rightarrow> image_RGBA" where
  "drawCells conf c cells img =
     fold (\<lambda>p img. drawPixel img (fst p) (snd p) c (gridSize conf) (size' conf)) cells img"

text \<open>
  The overrides a caller can build: the type \<open>options\<close> is not exported, so outside the
  package an \<open>OptFunc\<close> comes from one of the six constructors.
\<close>

inductive exported :: "OptFunc \<Rightarrow> bool" where
  "exported (WithSize s)"
| "exported (WithGridSize g)"
| "exported (WithBgColor r g b a)"
| "exported (WithFgColor r g b a)"
| "exported (WithLayers n)"
| "exported (WithLayerColor layerIndex r g b a)"

text \<open>What the defaults establish and the constructors keep.\<close>

definition validOptions :: "options \<Rightarrow> bool" where
  "validOptions conf \<longleftrightarrow>
     64 \<le> size' conf \<and> 8 \<le> gridSize conf \<and> 1 \<le> layers conf \<and> layers conf \<le> 3"

section \<open>Properties of the options\<close>

lemma expandColors_eq:
  "expandColors cs i = cs @ replicate (nat (i + 1) - length cs) (RGBA 0 0 0 0)"
proof (induction cs i rule: expandColors.induct)
  case (1 cs i)
  show ?case
  proof (cases "int (length cs) \<le> i")
    case True
    then have "nat (i + 1) - length cs = Suc (nat (i + 1) - Suc (length cs))"
      by linarith
    with True 1 show ?thesis
      by (subst expandColors.simps) (simp add: replicate_app_Cons_same)
  next
    case False
    then show ?thesis
      by (subst expandColors.simps) simp
  qed
qed

lemma applyOpts_append:
  "applyOpts (opts @ opts') conf = do { conf' \<leftarrow> applyOpts opts conf; applyOpts opts' conf' }"
  by (induction opts arbitrary: conf) (simp_all split: Option.bind_split)

text \<open>
  Claim C8. An override with an invalid value returns the options unchanged and never
  panics: \<open>WithSize s\<close> with \<open>s < 64\<close>, \<open>WithGridSize g\<close> with \<open>g \<le> 8\<close>, \<open>WithLayers n\<close> with
  \<open>n\<close> outside 1..3. A valid value is stored exactly: \<open>WithSize 512\<close> (and any size from 64),
  any grid size above 8, any layer count among 1, 2, 3. No other field changes.
\<close>

theorem invalid_overrides_ignored:
  "(s < 64 \<longrightarrow> WithSize s conf = Some conf) \<and>
   WithSize 512 conf = Some (conf\<lparr>size' := 512\<rparr>) \<and>
   (64 \<le> s' \<longrightarrow> WithSize s' conf = Some (conf\<lparr>size' := s'\<rparr>)) \<and>
   (g \<le> 8 \<longrightarrow> WithGridSize g conf = Some conf) \<and>
   (8 < g' \<longrightarrow> WithGridSize g' conf = Some (conf\<lparr>gridSize := g'\<rparr>)) \<and>
   (n < 1 \<or> 3 < n \<longrightarrow> WithLayers n conf = Some conf) \<and>
   (n' \<in> {1, 2, 3} \<longrightarrow> WithLayers n' conf = Some (conf\<lparr>layers := n'\<rparr>))"
  by (auto simp add: WithSize_def WithGridSize_def WithLayers_def)

theorem invalid_overrides_ignored_witness:
  "63 < (64::int) \<and>
   WithSize 63 \<lparr>size' = 64, gridSize = 8, bgColor = RGBA 240 240 240 255,
                fgColors = [RGBA 100 52 49 255], layers = 1\<rparr>
     = Some \<lparr>size' = 64, gridSize = 8, bgColor = RGBA 240 240 240 255,
             fgColors = [RGBA 100 52 49 255], layers = 1\<rparr> \<and>
   WithSize 512 \<lparr>size' = 64, gridSize = 8, bgColor = RGBA 240 240 240 255,
                 fgColors = [RGBA 100 52 49 255], layers = 1\<rparr>
     = Some \<lparr>size' = 512, gridSize = 8, bgColor = RGBA 240 240 240 255,
             fgColors = [RGBA 100 52 49 255], layers = 1\<rparr> \<and>
   WithSize 100 \<lparr>size' = 64, gridSize = 8, bgColor = RGBA 240 240 240 255,
                 fgColors = [RGBA 100 52 49 255], layers = 1\<rparr>
     = Some \<lparr>size' = 100, gridSize = 8, bgColor = RGBA 240 240 240 255,
             fgColors = [RGBA 100 52 49 255], layers = 1\<rparr> \<and>
   WithGridSize 8 \<lparr>size' = 64, gridSize = 8, bgColor = RGBA 240 240 240 255,
                   fgColors = [RGBA 100 52 49 255], layers = 1\<rparr>
     = Some \<lparr>size' = 64, gridSize = 8, bgColor = RGBA 240 240 240 255,
             fgColors = [RGBA 100 52 49 255], layers = 1\<rparr> \<and>
   WithGridSize 10 \<lparr>size' = 64, gridSize = 8, bgColor = RGBA 240 240 240 255,
                    fgColors = [RGBA 100 52 49 255], layers = 1\<rparr>
     = Some \<lparr>size' = 64, gridSize = 10, bgColor = RGBA 240 240 240 255,
             fgColors = [RGBA 100 52 49 255], layers = 1\<rparr> \<and>
   WithLayers 4 \<lparr>size' = 64, gridSize = 8, bgColor = RGBA 240 240 240 255,
                 fgColors = [RGBA 100 52 49 255], layers = 1\<rparr>
     = Some \<lparr>size' = 64, gridSize = 8, bgColor = RGBA 240 240 240 255,
             fgColors = [RGBA 100 52 49 255], layers = 1\<rparr> \<and>
   WithLayers 3 \<lparr>size' = 64, gridSize = 8, bgColor = RGBA 240 240 240 255,
                 fgColors = [RGBA 100 52 49 255], layers = 1\<rparr>
     = Some \<lparr>size' = 64, gridSize = 8, bgColor = RGBA 240 240 240 255,
             fgColors = [RGBA 100 52 49 255], layers = 3\<rparr>"
  using invalid_overrides_ignored
    [of 63 "\<lparr>size' = 64, gridSize = 8, bgColor = RGBA 240 240 240 255,
             fgColors = [RGBA 100 52 49 255], layers = 1\<rparr>" 100 8 10 4 3]
  by simp

text \<open>
  Claim C9. \<open>WithLayerColor 2 0 0 255 255\<close> on options whose colour list has one element
  gives a list of three: the old first colour, the zero colour, and (0, 0, 255, 255).
\<close>

theorem WithLayerColor_grows_with_zero:
  "length (fgColors conf) = 1 \<Longrightarrow>
    WithLayerColor 2 0 0 255 255 conf =
      Some (conf\<lparr>fgColors := [fgColors conf ! 0, RGBA 0 0 0 0, RGBA 0 0 255 255]\<rparr>)"
  by (cases "fgColors conf")
    (simp_all add: WithLayerColor_def expandColors_eq Let_def numeral_3_eq_3)

theorem WithLayerColor_grows_with_zero_witness:
  "length (fgColors \<lparr>size' = 64, gridSize = 8, bgColor = RGBA 240 240 240 255,
                     fgColors = [RGBA 100 52 49 255], layers = 1\<rparr>) = 1 \<and>
   WithLayerColor 2 0 0 255 255
     \<lparr>size' = 64, gridSize = 8, bgColor = RGBA 240 240 240 255,
      fgColors = [RGBA 100 52 49 255], layers = 1\<rparr>
   = Some \<lparr>size' = 64, gridSize = 8, bgColor = RGBA 240 240 240 255,
           fgColors = [RGBA 100 52 49 255, RGBA 0 0 0 0, RGBA 0 0 255 255], layers = 1\<rparr>"
  using WithLayerColor_grows_with_zero
    [of "\<lparr>size' = 64, gridSize = 8, bgColor = RGBA 240 240 240 255,
           fgColors = [RGBA 100 52 49 255], layers = 1\<rparr>"]
  by simp

text \<open>
  Claim C10. \<open>WithFgColor r g b a\<close> replaces the whole colour list by the one colour, whatever
  the list held: applied after any overrides \<open>opts\<close>, the resolved list is \<open>[(r, g, b, a)]\<close>.
  Every layer from the second on then takes its colour from its own hash.
\<close>

theorem WithFgColor_resets_layer_colors:
  "WithFgColor r g b a conf = Some (conf\<lparr>fgColors := [RGBA r g b a]\<rparr>) \<and>
   (applyOpts opts conf0 = Some conf \<longrightarrow>
      applyOpts (opts @ [WithFgColor r g b a]) conf0
        = Some (conf\<lparr>fgColors := [RGBA r g b a]\<rparr>)) \<and>
   (1 \<le> l \<longrightarrow>
      layerColor (conf\<lparr>fgColors := [RGBA r g b a]\<rparr>) currentHash l = hashColor currentHash)"
  by (simp add: WithFgColor_def applyOpts_append layerColor_def)

theorem WithFgColor_resets_layer_colors_witness:
  "applyOpts [WithLayerColor 1 1 2 3 4, WithLayerColor 2 5 6 7 8]
     \<lparr>size' = 64, gridSize = 8, bgColor = RGBA 240 240 240 255,
      fgColors = [RGBA 100 52 49 255], layers = 1\<rparr>
   = Some \<lparr>size' = 64, gridSize = 8, bgColor = RGBA 240 240 240 255,
           fgColors = [RGBA 100 52 49 255, RGBA 1 2 3 4, RGBA 5 6 7 8], layers = 1\<rparr> \<and>
   applyOpts [WithLayerColor 1 1 2 3 4, WithLayerColor 2 5 6 7 8, WithFgColor 9 9 9 255]
     \<lparr>size' = 64, gridSize = 8, bgColor = RGBA 240 240 240 255,
      fgColors = [RGBA 100 52 49 255], layers = 1\<rparr>
   = Some \<lparr>size' = 64, gridSize = 8, bgColor = RGBA 240 240 240 255,
           fgColors = [RGBA 9 9 9 255], layers = 1\<rparr> \<and>
   (1::int) \<le> 2 \<and>
   layerColor \<lparr>size' = 64, gridSize = 8, bgColor = RGBA 240 240 240 255,
               fgColors = [RGBA 9 9 9 255], layers = 1\<rparr>
     ''d41d8cd98f00b204e9800998ecf8427e'' 2 = Some (RGBA 100 52 49 255)"
proof -
  let ?c0 = "\<lparr>size' = 64, gridSize = 8, bgColor = RGBA 240 240 240 255,
      fgColors = [RGBA 100 52 49 255], layers = 1\<rparr>"
  let ?c1 = "\<lparr>size' = 64, gridSize = 8, bgColor = RGBA 240 240 240 255,
           fgColors = [RGBA 100 52 49 255, RGBA 1 2 3 4, RGBA 5 6 7 8], layers = 1\<rparr>"
  have h: "applyOpts [WithLayerColor 1 1 2 3 4, WithLayerColor 2 5 6 7 8] ?c0 = Some ?c1"
    by (simp add: WithLayerColor_def expandColors_eq Let_def numeral_3_eq_3 numeral_2_eq_2)
  have hc: "hashColor ''d41d8cd98f00b204e9800998ecf8427e'' = Some (RGBA 100 52 49 255)"
    by (simp add: hashColor_def byteAt_def)
  show ?thesis
    using h hc WithFgColor_resets_layer_colors
      [of 9 9 9 255 ?c1 "[WithLayerColor 1 1 2 3 4, WithLayerColor 2 5 6 7 8]" ?c0 2
        "''d41d8cd98f00b204e9800998ecf8427e''"]
    by simp
qed

section \<open>The image buffer\<close>

lemma Set_RGBA_dims [simp]:
  "Dx (Set_RGBA img x y c) = Dx img" "Dy (Set_RGBA img x y c) = Dy img"
  "Stride (Set_RGBA img x y c) = Stride img"
  "length (Pix (Set_RGBA img x y c)) = length (Pix img)"
  by (cases c; simp add: Set_RGBA_def Let_def)+

lemma inBounds_Set_RGBA [simp]: "inBounds (Set_RGBA img x y c) x' y' = inBounds img x' y'"
  by (simp add: inBounds_def)

lemma wellFormed_Set_RGBA [simp]: "wellFormed (Set_RGBA img x y c) = wellFormed img"
  by (simp add: wellFormed_def)

lemma PixOffset_Set_RGBA [simp]: "PixOffset (Set_RGBA img x y c) x' y' = PixOffset img x' y'"
  by (simp add: PixOffset_def)

lemma PixOffset_eq:
  assumes "wellFormed img" "inBounds img x y"
  shows "PixOffset img x y = 4 * nat (y * Dx img + x)"
  using assms by (simp add: PixOffset_def wellFormed_def inBounds_def nat_mult_distrib algebra_simps)

lemma pixel_index_less:
  assumes "wellFormed img" "inBounds img x y"
  shows "4 * nat (y * Dx img + x) + 3 < length (Pix img)"
proof -
  from assms have b: "0 \<le> x" "x < Dx img" "0 \<le> y" "y + 1 \<le> Dy img"
    by (simp_all add: inBounds_def)
  have "(y + 1) * Dx img \<le> Dy img * Dx img"
    using b by (intro mult_right_mono) simp_all
  then have "y * Dx img + x < Dx img * Dy img"
    using b by (simp add: algebra_simps)
  moreover have "0 \<le> y * Dx img + x"
    using b by simp
  ultimately show ?thesis
    using assms(1) by (simp add: wellFormed_def)
qed

lemma pixel_index_inj:
  assumes "inBounds img x y" "inBounds img x' y'"
    and "y * Dx img + x = y' * Dx img + x'"
  shows "x = x' \<and> y = y'"
proof -
  from assms have b: "0 \<le> x" "x < Dx img" "0 \<le> x'" "x' < Dx img"
    by (simp_all add: inBounds_def)
  have "(y * Dx img + x) div Dx img = y" "(y' * Dx img + x') div Dx img = y'"
    using b by simp_all
  with assms(3) have "y = y'" by simp
  with assms(3) show ?thesis by simp
qed

lemma RGBAAt_Set_RGBA:
  assumes "wellFormed img"
  shows "RGBAAt (Set_RGBA img x y c) x' y' =
           (if x' = x \<and> y' = y \<and> inBounds img x y then c else RGBAAt img x' y')"
proof (cases "inBounds img x y")
  case False
  then show ?thesis by (simp add: Set_RGBA_def)
next
  case inb: True
  obtain r g b a where c: "c = RGBA r g b a" by (cases c)
  let ?i = "nat (y * Dx img + x)"
  have i: "PixOffset img x y = 4 * ?i"
    using assms inb by (rule PixOffset_eq)
  have len: "4 * ?i + 3 < length (Pix img)"
    using assms inb by (rule pixel_index_less)
  have pix: "Pix (Set_RGBA img x y c) = (Pix img)[4 * ?i := r, 4 * ?i + 1 := g, 4 * ?i + 2 := b, 4 * ?i + 3 := a]"
    using inb by (simp add: Set_RGBA_def c i Let_def)
  show ?thesis
  proof (cases "inBounds img x' y'")
    case False
    then show ?thesis using inb by (auto simp add: RGBAAt_def)
  next
    case inb': True
    let ?j = "nat (y' * Dx img + x')"
    have j: "PixOffset img x' y' = 4 * ?j"
      using assms inb' by (rule PixOffset_eq)
    show ?thesis
    proof (cases "x' = x \<and> y' = y")
      case True
      then show ?thesis
        using inb len by (simp add: RGBAAt_def pix [unfolded c] c i Let_def)
    next
      case False
      have nn: "0 \<le> y * Dx img + x" "0 \<le> y' * Dx img + x'"
        using inb inb' by (simp_all add: inBounds_def)
      have "y * Dx img + x \<noteq> y' * Dx img + x'"
        using pixel_index_inj [OF inb inb'] False by blast
      then have "?i \<noteq> ?j" using nn by simp
      then show ?thesis
        using inb inb' False by (auto simp add: RGBAAt_def pix i j Let_def)
    qed
  qed
qed

lemma RGBAAt_fold_Set_RGBA:
  assumes "wellFormed img"
  shows "RGBAAt (fold (\<lambda>p img. Set_RGBA img (fst p) (snd p) c) ps img) x y =
           (if (x, y) \<in> set ps \<and> inBounds img x y then c else RGBAAt img x y)"
  using assms
proof (induction ps arbitrary: img)
  case Nil
  then show ?case by simp
next
  case (Cons p ps)
  then show ?case
    by (cases p) (auto simp add: RGBAAt_Set_RGBA)
qed

lemma fold_Set_RGBA_dims [simp]:
  "Dx (fold (\<lambda>p img. Set_RGBA img (fst p) (snd p) c) ps img) = Dx img"
  "Dy (fold (\<lambda>p img. Set_RGBA img (fst p) (snd p) c) ps img) = Dy img"
  "wellFormed (fold (\<lambda>p img. Set_RGBA img (fst p) (snd p) c) ps img) = wellFormed img"
  by (induction ps arbitrary: img) simp_all

lemma fold_concat:
  "fold f (concat xss) s = fold (\<lambda>xs. fold f xs) xss s"
  by (induction xss arbitrary: s) simp_all

lemma set_grid_points:
  "set (concat (map (\<lambda>y. map (\<lambda>x. (x, y)) [a..b]) [c..d])) = {a..b} \<times> {c..d}"
  by (auto simp add: image_iff)

lemma drawPixel_fold:
  "drawPixel img gridX gridY c g s =
     fold (\<lambda>p img. Set_RGBA img (fst p) (snd p) c)
       (blockPixels (Dx img) (Dy img) gridX gridY g s) img"
  by (simp add: drawPixel_def blockPixels_def Let_def fold_concat fold_map comp_def)

lemma drawPixel_dims [simp]:
  "Dx (drawPixel img gridX gridY c g s) = Dx img"
  "Dy (drawPixel img gridX gridY c g s) = Dy img"
  "wellFormed (drawPixel img gridX gridY c g s) = wellFormed img"
  by (simp_all add: drawPixel_fold)

lemma RGBAAt_drawPixel:
  assumes "wellFormed img"
  shows "RGBAAt (drawPixel img gridX gridY c g s) x y =
           (if (x, y) \<in> set (blockPixels (Dx img) (Dy img) gridX gridY g s) \<and> inBounds img x y
            then c else RGBAAt img x y)"
  using assms by (simp add: drawPixel_fold RGBAAt_fold_Set_RGBA)

lemma wellFormed_zeroRGBA: "0 \<le> w \<Longrightarrow> 0 \<le> h \<Longrightarrow> wellFormed (zeroRGBA w h)"
  by (simp add: wellFormed_def zeroRGBA_def)

lemma zeroRGBA_dims [simp]: "Dx (zeroRGBA w h) = w" "Dy (zeroRGBA w h) = h"
  by (simp_all add: zeroRGBA_def)

lemma NewRGBA_eq_Some:
  assumes "NewRGBA w h = Some img"
  shows "img = zeroRGBA w h \<and> 0 \<le> w \<and> 0 \<le> h"
  using assms by (auto simp add: NewRGBA_def mul3NonNeg_def split: if_splits)

lemma NewRGBA_square:
  assumes "0 \<le> s" "4 * (s * s) < 2 ^ 63"
  shows "NewRGBA s s = Some (zeroRGBA s s)"
proof -
  have "4 * s \<le> 4 * (s * s) \<or> s = 0"
    using assms(1) by (simp add: mult_le_cancel_left1) 
  then have "4 * s < 2 ^ 64"
    using assms(2) by auto
  then show ?thesis
    using assms by (simp add: NewRGBA_def mul3NonNeg_def mult.assoc)
qed

lemma NewRGBA_huge:
  assumes "2 ^ 63 \<le> 4 * (s * s)"
  shows "NewRGBA s s = None"
  using assms by (auto simp add: NewRGBA_def mul3NonNeg_def mult.assoc)

lemma draw_Src_Uniform_fold:
  "draw_Src_Uniform img c =
     fold (\<lambda>p img. Set_RGBA img (fst p) (snd p) c)
       (concat (map (\<lambda>y. map (\<lambda>x. (x, y)) [0..Dx img - 1]) [0..Dy img - 1])) img"
  by (simp add: draw_Src_Uniform_def Let_def fold_concat fold_map comp_def)

lemma draw_Src_Uniform_dims [simp]:
  "Dx (draw_Src_Uniform img c) = Dx img"
  "Dy (draw_Src_Uniform img c) = Dy img"
  "wellFormed (draw_Src_Uniform img c) = wellFormed img"
  by (simp_all add: draw_Src_Uniform_fold)

lemma RGBAAt_draw_Src_Uniform:
  assumes "wellFormed img"
  shows "RGBAAt (draw_Src_Uniform img c) x y = (if inBounds img x y then c else RGBA 0 0 0 0)"
proof -
  let ?ps = "concat (map (\<lambda>y. map (\<lambda>x. (x, y)) [0..Dx img - 1]) [0..Dy img - 1])"
  have "RGBAAt (draw_Src_Uniform img c) x y =
          (if (x, y) \<in> set ?ps \<and> inBounds img x y then c else RGBAAt img x y)"
    using assms by (simp only: draw_Src_Uniform_fold RGBAAt_fold_Set_RGBA)
  moreover have "inBounds img x y \<Longrightarrow> (x, y) \<in> set ?ps"
    by (simp only: set_grid_points) (simp add: inBounds_def)
  moreover have "\<not> inBounds img x y \<Longrightarrow> RGBAAt img x y = RGBA 0 0 0 0"
    by (simp add: RGBAAt_def)
  ultimately show ?thesis by auto
qed

section \<open>Grid cells and pixel blocks\<close>

lemma scaled_div:
  assumes "0 \<le> k" "0 \<le> s" "0 < g"
  shows "scaled k s g = (2 * k * s + g) div (2 * g)"
proof -
  have q: "(0::rat) \<le> of_int k * of_int s / of_int g"
    using assms by simp
  have "(of_int k * of_int s / of_int g + 1 / 2 :: rat) = of_int (2 * k * s + g) / of_int (2 * g)"
    using assms by (simp add: field_simps)
  then have "\<lfloor>(of_int k * of_int s / of_int g + 1 / 2 :: rat)\<rfloor> = (2 * k * s + g) div (2 * g)"
    by (simp only: floor_divide_of_int_eq)
  with q show ?thesis
    by (simp add: scaled_def math_Round_def)
qed

lemma scaled_mono:
  assumes "0 \<le> k" "k \<le> k'" "0 \<le> s" "0 < g"
  shows "scaled k s g \<le> scaled k' s g"
proof -
  have "2 * k * s + g \<le> 2 * k' * s + g"
    using assms by (simp add: mult_right_mono)
  then show ?thesis
    using assms by (simp add: scaled_div zdiv_mono1)
qed

lemma scaled_0: "0 \<le> s \<Longrightarrow> 0 < g \<Longrightarrow> scaled 0 s g = 0"
  by (simp add: scaled_div)

lemma scaled_full: "0 \<le> s \<Longrightarrow> 0 < g \<Longrightarrow> scaled g s g = s"
proof -
  assume a: "0 \<le> s" "0 < g"
  have "(2 * g * s + g) div (2 * g) = (g + s * (2 * g)) div (2 * g)"
    by (simp add: algebra_simps)
  also have "\<dots> = s"
    using a by simp
  finally show ?thesis using a by (simp add: scaled_div)
qed

lemma scaled_nonneg: "0 \<le> k \<Longrightarrow> 0 \<le> s \<Longrightarrow> 0 < g \<Longrightarrow> 0 \<le> scaled k s g"
  using scaled_mono [of 0 k s g] by (simp add: scaled_0)

lemma scaled_le: "0 \<le> k \<Longrightarrow> k \<le> g \<Longrightarrow> 0 \<le> s \<Longrightarrow> 0 < g \<Longrightarrow> scaled k s g \<le> s"
  using scaled_mono [of k g s g] by (simp add: scaled_full)

subsection \<open>The bounds in binary64 arithmetic\<close>

lemma dyadic53_of_int: "\<bar>m\<bar> < 2 ^ 53 \<Longrightarrow> dyadic53 (of_int m)"
  unfolding dyadic53_def by (intro exI [of _ m] exI [of _ 0]) simp

lemma power_of_two_above:
  assumes "0 < (g::int)"
  shows "\<exists>n::nat. 2 * g \<le> 2 ^ (n + 1) \<and> (2::int) ^ n < 2 * g"
proof -
  have "1 \<le> nat (2 * g - 1)" using assms by simp
  from ex_power_ivl1 [of 2, OF _ this] obtain n :: nat
    where n: "2 ^ n \<le> nat (2 * g - 1)" "nat (2 * g - 1) < 2 ^ (n + 1)" by auto
  have "int (2 ^ n) \<le> int (nat (2 * g - 1))"
    using n(1) by (simp only: of_nat_le_iff)
  then have "(2::int) ^ n \<le> 2 * g - 1"
    using assms by simp
  moreover have "int (nat (2 * g - 1)) < int (2 ^ (n + 1))"
    using n(2) by (simp only: of_nat_less_iff)
  then have "2 * g - 1 < (2::int) ^ (n + 1)"
    using assms by simp
  ultimately show ?thesis by (intro exI [of _ n]) simp
qed

lemma scaledFloat64_exact:
  assumes fl: "roundsToFloat64 fl"
    and k: "0 \<le> k" and s: "0 < s" and g: "0 < g"
    and small: "4 * (k * s + g) \<le> 2 ^ 53"
  shows "scaledFloat64 fl k s g = scaled k s g"
proof -
  have fixes_dyadic: "fl v = v" if "dyadic53 v" for v
    using fl that by (simp add: roundsToFloat64_def)
  have mono: "fl u \<le> fl v" if "u \<le> v" for u v
    using fl that by (simp add: roundsToFloat64_def)
  have ks0: "0 \<le> k * s" using k s by simp
  have ks: "k * s < 2 ^ 52" and g53: "g < 2 ^ 52"
    using small ks0 g by simp_all
  have fl_int: "fl (of_int m) = of_int m" if "0 \<le> m" "m < 2 ^ 52" for m
    using that by (intro fixes_dyadic dyadic53_of_int) simp
  have prod: "fl (fl (of_int k) * fl (of_int s)) = of_int k * of_int s"
  proof (cases "k = 0")
    case True
    then show ?thesis using fl_int [of 0] by simp
  next
    case False
    then have "1 \<le> k" using k by simp
    then have "s \<le> k * s" using s by simp
    moreover have "k \<le> k * s" using s k by (simp add: mult_le_cancel_left1)
    ultimately have "fl (of_int k) = of_int k" "fl (of_int s) = of_int s"
      using ks k s by (intro fl_int; linarith)+
    then show ?thesis using fl_int [OF ks0 ks] by simp
  qed
  have flg: "fl (of_int g) = of_int g"
    using g g53 by (intro fl_int) simp_all
  define q :: rat where "q = of_int k * of_int s / of_int g"
  define n where "n = scaled k s g"
  have q0: "0 \<le> q" using k s g by (simp add: q_def)
  have n_floor: "n = \<lfloor>q + 1 / 2\<rfloor>"
    using q0 by (simp add: n_def scaled_def math_Round_def q_def)
  have n_div: "n = (2 * (k * s) + g) div (2 * g)"
    using k s g by (simp add: n_def scaled_div less_imp_le mult.assoc)
  have n0: "0 \<le> n" using q0 by (simp add: n_floor)
  have dm: "2 * (k * s) + g = 2 * g * n + (2 * (k * s) + g) mod (2 * g)"
    unfolding n_div by simp
  have "0 \<le> (2 * (k * s) + g) mod (2 * g)" "(2 * (k * s) + g) mod (2 * g) < 2 * g"
    using g by simp_all
  with dm have div_lo: "2 * g * n \<le> 2 * (k * s) + g"
    and div_hi: "2 * (k * s) + g < 2 * g * n + 2 * g"
    by linarith+
  have r0: "0 \<le> fl q"
    using mono [OF q0] fl_int [of 0] by simp
  text \<open>The half-integer below.\<close>
  have lo: "of_int n - 1 / 2 \<le> fl q"
  proof -
    have "of_int n - 1 / 2 \<le> (0::rat)" if "n = 0" using that by simp
    moreover have "of_int n - 1 / 2 \<le> fl q" if "n \<noteq> 0"
    proof -
      have n1: "1 \<le> n" using n0 that by simp
      have "k * s \<le> g * (k * s)"
        using g ks0 by (simp add: mult_le_cancel_right1)
      with div_lo have "2 * (g * n) \<le> 2 * (g * (k * s)) + g"
        by (simp add: mult.assoc)
      then have "g * (2 * n - 1) \<le> g * (2 * (k * s))" by (simp add: algebra_simps)
      then have "2 * n - 1 \<le> 2 * (k * s)" using g by (simp only: mult_le_cancel_left_pos)
      then have "\<bar>2 * n - 1\<bar> < 2 ^ 53" using n1 ks by simp
      then have "dyadic53 (of_int (2 * n - 1) / 2 ^ 1)"
        unfolding dyadic53_def by (intro exI [of _ "2 * n - 1"] exI [of _ 1]) simp
      moreover have eq: "(of_int (2 * n - 1) / 2 ^ 1 :: rat) = of_int n - 1 / 2"
        by (simp add: field_simps)
      ultimately have "fl (of_int n - 1 / 2) = of_int n - 1 / 2"
        using fixes_dyadic [of "of_int n - 1 / 2"] by (simp only:)
      moreover have "of_int n - 1 / 2 \<le> q"
        using of_int_floor_le [of "q + 1 / 2"] unfolding n_floor by linarith
      ultimately show ?thesis using mono [of "of_int n - 1 / 2" q] by simp
    qed
    ultimately show ?thesis using r0 by (cases "n = 0") simp_all
  qed
  text \<open>A binary fraction between the quotient and the half-integer above.\<close>
  have hi: "fl q < of_int n + 1 / 2"
  proof -
    obtain e :: nat where e: "2 * g \<le> 2 ^ (e + 1)" "(2::int) ^ e < 2 * g"
      using power_of_two_above [OF g] by blast
    define M where "M = (2 * n + 1) * 2 ^ e - 1"
    define u :: rat where "u = of_int M / 2 ^ (e + 1)"
    have u_eq: "u = of_int n + 1 / 2 - 1 / 2 ^ (e + 1)"
      by (simp add: u_def M_def field_simps)
    have M0: "0 \<le> M"
    proof -
      have "1 * 1 \<le> (2 * n + 1) * (2::int) ^ e"
        using n0 by (intro mult_mono) simp_all
      then show ?thesis by (simp add: M_def)
    qed
    have "(2 * n + 1) * 2 ^ e \<le> (2 * n + 1) * (2 * g)"
      using e(2) n0 by (intro mult_left_mono) simp_all
    also have "\<dots> = 2 * (2 * g * n) + 2 * g" by (simp add: algebra_simps)
    also have "\<dots> \<le> 2 * (2 * (k * s) + g) + 2 * g" using div_lo by simp
    also have "\<dots> \<le> 2 ^ 53" using small by simp
    finally have "M < 2 ^ 53" by (simp add: M_def)
    then have M53: "\<bar>M\<bar> < 2 ^ 53" using M0 by simp
    have "(2::int) ^ e < 2 ^ 53" using e(2) g53 by simp
    then have "e < 53" by (simp only: power_strict_increasing_iff)
    then have "dyadic53 u"
      unfolding dyadic53_def u_def using M53 by (intro exI [of _ M] exI [of _ "e + 1"]) simp
    then have flu: "fl u = u" by (rule fixes_dyadic)
    have "2 * (k * s) + 1 \<le> g * (2 * n + 1)"
      using div_hi by (simp add: algebra_simps)
    then have "(of_int (2 * (k * s) + 1) :: rat) \<le> of_int (g * (2 * n + 1))"
      by (simp only: of_int_le_iff)
    then have "q \<le> of_int n + 1 / 2 - 1 / (2 * of_int g)"
      using g by (simp add: q_def field_simps)
    moreover have "(1::rat) / 2 ^ (e + 1) \<le> 1 / (2 * of_int g)"
    proof -
      have "(of_int (2 * g) :: rat) \<le> of_int (2 ^ (e + 1))"
        using e(1) by (simp only: of_int_le_iff)
      then have "(2 * of_int g :: rat) \<le> 2 ^ (e + 1)" by simp
      then show ?thesis using g by (intro divide_left_mono) simp_all
    qed
    ultimately have "q \<le> u" by (simp add: u_eq)
    from mono [OF this] have "fl q \<le> u" by (simp add: flu)
    moreover have "u < of_int n + 1 / 2" by (simp add: u_eq)
    ultimately show ?thesis by simp
  qed
  have "\<lfloor>fl q + 1 / 2\<rfloor> = n"
    using lo hi by (intro floor_unique) simp_all
  then have "math_Round (fl q) = n"
    using r0 by (simp add: math_Round_def)
  then show ?thesis
    by (simp add: scaledFloat64_def prod flg q_def n_def)
qed

text \<open>In \<open>Make\<close> the cell index is at most the grid size; an image below \<open>2 ^ 31\<close> pixels wide.\<close>

lemma scaledFloat64_exact_Make:
  assumes "roundsToFloat64 fl" "0 \<le> k" "k \<le> g" "0 < g" "g \<le> 32" "0 < s" "s < 2 ^ 31"
  shows "scaledFloat64 fl k s g = scaled k s g"
proof -
  define p where "p = k * s"
  have "p \<le> 32 * s"
    unfolding p_def using assms by (intro mult_right_mono) simp_all
  moreover have "s < 2147483648"
    using assms(7) by simp
  ultimately have "4 * (p + g) \<le> (9007199254740992::int)"
    using assms(5) by simp
  then have "4 * (k * s + g) \<le> 2 ^ 53"
    by (simp add: p_def)
  with assms show ?thesis by (intro scaledFloat64_exact) simp_all
qed

subsection \<open>The blocks tile the image\<close>

text \<open>A monotone staircase from 0 to s on 0..n covers every point below s exactly once.\<close>

lemma staircase_cover:
  fixes f :: "int \<Rightarrow> int"
  assumes "f 0 \<le> p" "p < f (int m)"
  shows "\<exists>k. 0 \<le> k \<and> k < int m \<and> f k \<le> p \<and> p < f (k + 1)"
  using assms(2)
proof (induction m)
  case 0
  with assms(1) show ?case by simp
next
  case (Suc m)
  show ?case
  proof (cases "p < f (int m)")
    case True
    with Suc.IH obtain k where "0 \<le> k" "k < int m" "f k \<le> p" "p < f (k + 1)" by blast
    then show ?thesis by (intro exI [of _ k]) simp
  next
    case False
    with Suc.prems show ?thesis
      by (intro exI [of _ "int m"]) (simp add: add.commute)
  qed
qed

lemma blockPixels_set:
  assumes "0 \<le> x" "x < g" "0 \<le> y" "y < g" "0 \<le> s"
  shows "set (blockPixels s s x y g s) =
           {scaled x s g ..< scaled (x + 1) s g} \<times> {scaled y s g ..< scaled (y + 1) s g}"
proof -
  have "scaled (x + 1) s g \<le> s" "scaled (y + 1) s g \<le> s"
    using assms by (simp_all add: scaled_le)
  then have "blockPixels s s x y g s =
      concat (map (\<lambda>y'. map (\<lambda>x'. (x', y')) [scaled x s g..scaled (x + 1) s g - 1])
        [scaled y s g..scaled (y + 1) s g - 1])"
    by (simp add: blockPixels_def Let_def)
  then show ?thesis
    by (simp only: set_grid_points) auto
qed

lemma column_cover:
  assumes "0 < g" "0 \<le> p" "p < s"
  shows "\<exists>k. 0 \<le> k \<and> k < g \<and> scaled k s g \<le> p \<and> p < scaled (k + 1) s g"
proof -
  have "scaled 0 s g \<le> p" "p < scaled (int (nat g)) s g"
    using assms by (simp_all add: scaled_0 scaled_full)
  from staircase_cover [of "\<lambda>k. scaled k s g", OF this] show ?thesis
    using assms by auto
qed

lemma columns_disjoint:
  assumes "0 \<le> k" "k < k'" "0 \<le> s" "0 < g"
  shows "{scaled k s g ..< scaled (k + 1) s g} \<inter> {scaled k' s g ..< scaled (k' + 1) s g} = {}"
proof -
  have "scaled (k + 1) s g \<le> scaled k' s g"
    using assms by (intro scaled_mono) simp_all
  then show ?thesis by auto
qed

lemma columns_disjoint_neq:
  assumes "0 \<le> k" "0 \<le> k'" "k \<noteq> k'" "0 \<le> s" "0 < g"
  shows "{scaled k s g ..< scaled (k + 1) s g} \<inter> {scaled k' s g ..< scaled (k' + 1) s g} = {}"
proof (cases "k < k'")
  case True
  then show ?thesis using assms by (intro columns_disjoint) simp_all
next
  case False
  then have "k' < k" using assms by simp
  then have "{scaled k' s g ..< scaled (k' + 1) s g} \<inter> {scaled k s g ..< scaled (k + 1) s g} = {}"
    using assms by (intro columns_disjoint) simp_all
  then show ?thesis by blast
qed

lemma blocks_cover:
  assumes "0 < g" "0 < s"
  shows "(\<Union>x\<in>{0..<g}. \<Union>y\<in>{0..<g}. set (blockPixels s s x y g s)) = {0..<s} \<times> {0..<s}"
proof (rule set_eqI, rule iffI)
  fix p :: "int \<times> int"
  obtain px py where p: "p = (px, py)" by (cases p)
  {
    assume "p \<in> (\<Union>x\<in>{0..<g}. \<Union>y\<in>{0..<g}. set (blockPixels s s x y g s))"
    then obtain x y where xy: "0 \<le> x" "x < g" "0 \<le> y" "y < g"
      and "p \<in> set (blockPixels s s x y g s)" by auto
    then have in_rect: "scaled x s g \<le> px" "px < scaled (x + 1) s g"
      "scaled y s g \<le> py" "py < scaled (y + 1) s g"
      using assms by (simp_all add: blockPixels_set p)
    have "0 \<le> scaled x s g" "scaled (x + 1) s g \<le> s" "0 \<le> scaled y s g" "scaled (y + 1) s g \<le> s"
      using xy assms by (simp_all add: scaled_nonneg scaled_le)
    with in_rect show "p \<in> {0..<s} \<times> {0..<s}"
      by (simp add: p)
  }
  {
    assume "p \<in> {0..<s} \<times> {0..<s}"
    then have b: "0 \<le> px" "px < s" "0 \<le> py" "py < s" by (simp_all add: p)
    from column_cover [OF assms(1) b(1,2)] obtain x
      where x: "0 \<le> x" "x < g" "scaled x s g \<le> px" "px < scaled (x + 1) s g" by blast
    from column_cover [OF assms(1) b(3,4)] obtain y
      where y: "0 \<le> y" "y < g" "scaled y s g \<le> py" "py < scaled (y + 1) s g" by blast
    have "p \<in> set (blockPixels s s x y g s)"
      using x y assms by (simp add: blockPixels_set p)
    moreover have "x \<in> {0..<g}" "y \<in> {0..<g}" using x y by simp_all
    ultimately show "p \<in> (\<Union>x\<in>{0..<g}. \<Union>y\<in>{0..<g}. set (blockPixels s s x y g s))"
      by blast
  }
qed

lemma blocks_disjoint:
  assumes "0 < g" "0 \<le> s"
    and "0 \<le> x" "x < g" "0 \<le> y" "y < g"
    and "0 \<le> x'" "x' < g" "0 \<le> y'" "y' < g"
    and ne: "(x, y) \<noteq> (x', y')"
  shows "set (blockPixels s s x y g s) \<inter> set (blockPixels s s x' y' g s) = {}"
proof -
  have r: "set (blockPixels s s x y g s) =
       {scaled x s g ..< scaled (x + 1) s g} \<times> {scaled y s g ..< scaled (y + 1) s g}"
    "set (blockPixels s s x' y' g s) =
       {scaled x' s g ..< scaled (x' + 1) s g} \<times> {scaled y' s g ..< scaled (y' + 1) s g}"
    using assms by (simp_all add: blockPixels_set)
  show ?thesis
  proof (cases "x = x'")
    case True
    with ne have "y \<noteq> y'" by simp
    then have "{scaled y s g ..< scaled (y + 1) s g} \<inter> {scaled y' s g ..< scaled (y' + 1) s g} = {}"
      using assms by (intro columns_disjoint_neq) simp_all
    then show ?thesis unfolding r by blast
  next
    case False
    then have "{scaled x s g ..< scaled (x + 1) s g} \<inter> {scaled x' s g ..< scaled (x' + 1) s g} = {}"
      using assms by (intro columns_disjoint_neq) simp_all
    then show ?thesis unfolding r by blast
  qed
qed

text \<open>
  Claim C4. For a positive grid size \<open>g\<close> and image size \<open>s\<close>, the block of cell \<open>(x, y)\<close>
  is the rectangle from \<open>scaled x s g\<close> to \<open>scaled (x + 1) s g\<close> and from \<open>scaled y s g\<close> to
  \<open>scaled (y + 1) s g\<close>, upper bounds excluded, where \<open>scaled k s g\<close> is \<open>k * s / g\<close> rounded;
  the blocks of two different cells are disjoint; the blocks of all cells together are the
  whole image; no point of a block is outside the image; and \<open>drawPixel\<close> changes exactly
  the pixels of the block.
\<close>

theorem cells_tile_image:
  assumes "0 < g" "0 < s"
    and "0 \<le> x" "x < g" "0 \<le> y" "y < g"
    and "0 \<le> x'" "x' < g" "0 \<le> y'" "y' < g"
    and "wellFormed img" "Dx img = s" "Dy img = s"
  shows
    "set (blockPixels s s x y g s) =
       {scaled x s g ..< scaled (x + 1) s g} \<times> {scaled y s g ..< scaled (y + 1) s g} \<and>
     ((x, y) \<noteq> (x', y') \<longrightarrow>
        set (blockPixels s s x y g s) \<inter> set (blockPixels s s x' y' g s) = {}) \<and>
     (\<Union>x\<in>{0..<g}. \<Union>y\<in>{0..<g}. set (blockPixels s s x y g s)) = {0..<s} \<times> {0..<s} \<and>
     set (blockPixels s s x y g s) \<subseteq> {p. inBounds img (fst p) (snd p)} \<and>
     RGBAAt (drawPixel img x y c g s) px py =
       (if (px, py) \<in> set (blockPixels s s x y g s) then c else RGBAAt img px py)"
proof (intro conjI impI)
  show rect: "set (blockPixels s s x y g s) =
       {scaled x s g ..< scaled (x + 1) s g} \<times> {scaled y s g ..< scaled (y + 1) s g}"
    using assms by (simp add: blockPixels_set)
  show cover: "(\<Union>x\<in>{0..<g}. \<Union>y\<in>{0..<g}. set (blockPixels s s x y g s)) = {0..<s} \<times> {0..<s}"
    using assms by (simp only: blocks_cover)
  have "set (blockPixels s s x y g s) \<subseteq> {0..<s} \<times> {0..<s}"
    using assms(3-6) by (subst cover [symmetric]) force
  then show inb: "set (blockPixels s s x y g s) \<subseteq> {p. inBounds img (fst p) (snd p)}"
    using assms by (auto simp add: inBounds_def)
  then show "RGBAAt (drawPixel img x y c g s) px py =
       (if (px, py) \<in> set (blockPixels s s x y g s) then c else RGBAAt img px py)"
    using assms by (auto simp add: RGBAAt_drawPixel)
next
  assume "(x, y) \<noteq> (x', y')"
  then show "set (blockPixels s s x y g s) \<inter> set (blockPixels s s x' y' g s) = {}"
    using assms by (intro blocks_disjoint) simp_all
qed

theorem cells_tile_image_witness:
  "(0::int) < 10 \<and> (0::int) < 64 \<and> wellFormed (zeroRGBA 64 64) \<and>
   set (blockPixels 64 64 3 9 10 64) = {19..<26} \<times> {58..<64} \<and>
   (3::int, 9::int) \<noteq> (4, 9) \<and>
   set (blockPixels 64 64 3 9 10 64) \<inter> set (blockPixels 64 64 4 9 10 64) = {} \<and>
   (\<Union>x\<in>{0..<10}. \<Union>y\<in>{0..<10}. set (blockPixels 64 64 x y 10 64)) = {0..<64} \<times> {0..<64} \<and>
   RGBAAt (drawPixel (zeroRGBA 64 64) 3 9 (RGBA 1 2 3 128) 10 64) 19 58 = RGBA 1 2 3 128"
proof -
  have sc: "scaled 3 64 10 = 19" "scaled 4 64 10 = 26" "scaled 9 64 10 = 58" "scaled 10 64 10 = 64"
    by (simp_all add: scaled_div)
  have wf: "wellFormed (zeroRGBA 64 64)" "Dx (zeroRGBA 64 64) = 64" "Dy (zeroRGBA 64 64) = 64"
    by (simp_all add: wellFormed_zeroRGBA)
  show ?thesis
    using cells_tile_image [of 10 64 3 9 4 9 "zeroRGBA 64 64" "RGBA 1 2 3 128" 19 58] wf sc
    apply simp
    apply (elim conjE)
    apply simp
    done
qed

section \<open>The hash and the pattern of a layer\<close>

subsection \<open>The hash\<close>

text \<open>
  Three messages of the test suite of RFC 1321, the last one two blocks long, evaluated
  through the definitions above.
\<close>

lemma md5_test_suite:
  "generateHash '''' = ''d41d8cd98f00b204e9800998ecf8427e''"
  "generateHash ''abc'' = ''900150983cd24fb0d6963f7d28e17f72''"
  "generateHash ''ABCDEFGHIJKLMNOPQRSTUVWXYZabcdefghijklmnopqrstuvwxyz0123456789''
     = ''d174ab98d277d9f5a5611c2c9f419d9f''"
  by code_simp+

lemma length_le_bytes [simp]: "length (le_bytes w) = 4"
  by (simp add: le_bytes_def)

lemma length_md5_Sum [simp]: "length (md5_Sum msg) = 16"
  by (simp add: md5_Sum_def split: prod.split)

lemma length_hex_EncodeToString [simp]: "length (hex_EncodeToString src) = 2 * length src"
  by (induction src) (simp_all add: hex_EncodeToString_def)

lemma length_generateHash [simp]: "length (generateHash data) = 32"
  by (simp add: generateHash_def)

lemma length_layerDigest [simp]: "length (layerDigest input l) = 32"
  by (cases l) simp_all

lemma hashColor_Some:
  "3 \<le> length h \<Longrightarrow>
     hashColor h = Some (RGBA (of_char (h ! 0)) (of_char (h ! 1)) (of_char (h ! 2)) 255)"
  by (auto simp add: hashColor_def byteAt_def)

lemma pixelOn_eq:
  "pixelOn h y x =
     (if 0 \<le> y \<and> y < int (length h)
      then Some (bit (of_char (h ! nat y) :: uint8) (nat (x smod 8))) else None)"
proof -
  have "(drop_bit n b AND 1 = 1) = bit b n" for n and b :: uint8
    by (simp add: bit_iff_odd_drop_bit and_one_eq mod_2_eq_odd)
  then show ?thesis
    by (simp add: pixelOn_def byteAt_def)
qed

subsection \<open>The pattern\<close>

lemma sdiv_nonneg: "0 \<le> a \<Longrightarrow> 0 < b \<Longrightarrow> a sdiv b = a div (b::int)"
  by (simp add: signed_divide_int_def sgn_if)

lemma smod_nonneg: "0 \<le> a \<Longrightarrow> 0 < b \<Longrightarrow> a smod b = a mod (b::int)"
  by (simp add: signed_modulo_int_def sgn_if)

lemma columnCells_Some:
  assumes "0 \<le> y" "y < int (length h)" "\<forall>x\<in>set xs. 0 \<le> x"
  shows "columnCells h g y xs =
           Some (concat (map (\<lambda>x. if hashBit h y x then [(x, y), (g - 1 - x, y)] else []) xs))"
  using assms(3)
proof (induction xs)
  case Nil
  then show ?case by simp
next
  case (Cons x xs)
  then show ?case
    using assms(1,2) by (simp add: pixelOn_eq hashBit_def smod_nonneg)
qed

lemma columnCells_None:
  assumes "\<not> (0 \<le> y \<and> y < int (length h))" "xs \<noteq> []"
  shows "columnCells h g y xs = None"
  using assms by (cases xs) (auto simp add: pixelOn_eq)

lemma centreCells_Some:
  assumes "0 \<le> y" "y < int (length h)" "0 \<le> g"
  shows "centreCells h g y =
           Some (if odd g \<and> hashBit h y (g div 2) then [(g div 2, y)] else [])"
  using assms
  by (simp add: centreCells_def pixelOn_eq hashBit_def smod_nonneg sdiv_nonneg Let_def
      odd_iff_mod_2_eq_one)

lemma centreCells_None:
  assumes "\<not> (0 \<le> y \<and> y < int (length h))" "odd g" "0 \<le> g"
  shows "centreCells h g y = None"
  using assms
  by (auto simp add: centreCells_def pixelOn_eq smod_nonneg odd_iff_mod_2_eq_one Let_def)

lemma set_rowOf:
  assumes "0 \<le> g"
  shows "set (rowOf h g y) =
           {(x, y) | x. 0 \<le> x \<and> x < g \<and> hashBit h y (min x (g - 1 - x))}"
    (is "?L = ?R")
proof (rule set_eqI, rule iffI)
  fix p
  assume "p \<in> ?L"
  then consider
      (left) x where "0 \<le> x" "x < g div 2" "hashBit h y x" "p = (x, y)"
    | (right) x where "0 \<le> x" "x < g div 2" "hashBit h y x" "p = (g - 1 - x, y)"
    | (mid) "odd g" "hashBit h y (g div 2)" "p = (g div 2, y)"
    by (auto simp add: rowOf_def split: if_splits)
  then show "p \<in> ?R"
  proof cases
    case left
    then have "min x (g - 1 - x) = x" "x < g" by linarith+
    with left show ?thesis by simp
  next
    case right
    then have "min (g - 1 - x) (g - 1 - (g - 1 - x)) = x" "0 \<le> g - 1 - x" "g - 1 - x < g"
      by linarith+
    with right show ?thesis by simp
  next
    case mid
    then have "min (g div 2) (g - 1 - g div 2) = g div 2" "0 \<le> g div 2" "g div 2 < g"
      using assms by presburger+
    with mid show ?thesis by simp
  qed
next
  fix p
  assume "p \<in> ?R"
  then obtain x where x: "0 \<le> x" "x < g" "hashBit h y (min x (g - 1 - x))" "p = (x, y)"
    by blast
  have "x < g div 2 \<or> g - 1 - x < g div 2 \<or> (odd g \<and> x = g div 2)"
    using x(1,2) by presburger
  then consider "x < g div 2" | "g - 1 - x < g div 2" | "odd g" "x = g div 2"
    by blast
  then show "p \<in> ?L"
  proof cases
    case 1
    then have "min x (g - 1 - x) = x" by linarith
    with x 1 show ?thesis by (force simp add: rowOf_def)
  next
    case 2
    then have m: "min x (g - 1 - x) = g - 1 - x" by linarith
    have "g - 1 - x \<in> set [0..g div 2 - 1]" using 2 x by simp
    moreover have "(x, y) \<in> set (if hashBit h y (g - 1 - x)
        then [(g - 1 - x, y), (g - 1 - (g - 1 - x), y)] else [])"
      using x m by simp
    ultimately show ?thesis
      unfolding rowOf_def x(4) set_append set_concat set_map by blast
  next
    case 3
    then have "min x (g - 1 - x) = g div 2" by presburger
    with x 3 show ?thesis by (simp add: rowOf_def)
  qed
qed

lemma row_Some:
  assumes "0 \<le> y" "y < int (length h)" "0 \<le> g"
  shows "do { left \<leftarrow> columnCells h g y [0..g sdiv 2 - 1]; mid \<leftarrow> centreCells h g y;
              Some (left @ mid) } = Some (rowOf h g y)"
  using assms by (simp add: columnCells_Some centreCells_Some sdiv_nonneg rowOf_def)

lemma rowCells_Some:
  assumes "0 \<le> g" "\<forall>y\<in>set ys. 0 \<le> y \<and> y < int (length h)"
  shows "rowCells h g ys = Some (concat (map (rowOf h g) ys))"
  using assms(2)
proof (induction ys)
  case Nil
  then show ?case by simp
next
  case (Cons y ys)
  then show ?case
    using assms(1)
    by (simp add: columnCells_Some centreCells_Some sdiv_nonneg rowOf_def)
qed

lemma row_None:
  assumes "\<not> (0 \<le> y \<and> y < int (length h))" "1 \<le> g"
  shows "do { left \<leftarrow> columnCells h g y [0..g sdiv 2 - 1]; centreCells h g y } = None"
proof (cases "g = 1")
  case True
  then show ?thesis
    using assms(1) by (simp add: centreCells_None sdiv_nonneg)
next
  case False
  with assms(2) have "1 \<le> g div 2" by presburger
  then have "[0..g div 2 - 1] \<noteq> []" by simp
  then show ?thesis
    using assms by (simp add: columnCells_None sdiv_nonneg)
qed

lemma rowCells_None:
  assumes "1 \<le> g" "\<exists>y\<in>set ys. \<not> (0 \<le> y \<and> y < int (length h))"
  shows "rowCells h g ys = None"
  using assms(2)
proof (induction ys)
  case Nil
  then show ?case by simp
next
  case (Cons y ys)
  show ?case
  proof (cases "0 \<le> y \<and> y < int (length h)")
    case True
    with Cons have "rowCells h g ys = None" by simp
    then show ?thesis by (simp split: Option.bind_split)
  next
    case False
    from row_None [OF this assms(1)] show ?thesis
      by (auto simp add: bind_eq_None_conv split: Option.bind_split)
  qed
qed

lemma layerCells_Some:
  assumes "0 \<le> g" "g \<le> int (length h)"
  shows "layerCells h g = Some (concat (map (rowOf h g) [0..g - 1]))"
  using assms by (simp add: layerCells_def rowCells_Some)

lemma layerCells_None:
  assumes "int (length h) < g"
  shows "layerCells h g = None"
proof -
  have "1 \<le> g" using assms by linarith
  moreover have "g - 1 \<in> set [0..g - 1]" "\<not> (0 \<le> g - 1 \<and> g - 1 < int (length h))"
    using assms by simp_all
  ultimately show ?thesis
    unfolding layerCells_def by (intro rowCells_None) blast+
qed

lemma cellOn_iff:
  assumes "0 \<le> g" "g \<le> int (length h)"
  shows "cellOn h g x y \<longleftrightarrow>
           0 \<le> y \<and> y < g \<and> 0 \<le> x \<and> x < g \<and> hashBit h y (min x (g - 1 - x))"
  using assms by (auto simp add: cellOn_def layerCells_Some set_rowOf)

section \<open>Layers\<close>

subsection \<open>A layer draws its cells\<close>

lemma drawCells_simps [simp]:
  "drawCells conf c [] img = img"
  "drawCells conf c (p # cells) img =
     drawCells conf c cells (drawPixel img (fst p) (snd p) c (gridSize conf) (size' conf))"
  "drawCells conf c (cells @ cells') img = drawCells conf c cells' (drawCells conf c cells img)"
  by (simp_all add: drawCells_def)

lemma columns_eq:
  "columns h c conf y xs img =
     map_option (\<lambda>cells. drawCells conf c cells img) (columnCells h (gridSize conf) y xs)"
proof (induction xs arbitrary: img)
  case Nil
  then show ?case by simp
next
  case (Cons x xs)
  show ?case
  proof (cases "pixelOn h y x")
    case None
    then show ?thesis by simp
  next
    case (Some on)
    then show ?thesis
      by (cases "columnCells h (gridSize conf) y xs") (simp_all add: Cons.IH)
  qed
qed

lemma centre_eq:
  "centre h c conf y img =
     map_option (\<lambda>cells. drawCells conf c cells img) (centreCells h (gridSize conf) y)"
  by (cases "pixelOn h y (gridSize conf sdiv 2)") (simp_all add: centre_def centreCells_def)

lemma rows_eq:
  "rows h c conf ys img =
     map_option (\<lambda>cells. drawCells conf c cells img) (rowCells h (gridSize conf) ys)"
proof (induction ys arbitrary: img)
  case Nil
  then show ?case by simp
next
  case (Cons y ys)
  show ?case
  proof (cases "columnCells h (gridSize conf) y [0..gridSize conf sdiv 2 - 1]")
    case None
    then show ?thesis by (simp add: columns_eq)
  next
    case left: (Some left)
    show ?thesis
    proof (cases "centreCells h (gridSize conf) y")
      case None
      then show ?thesis by (simp add: columns_eq centre_eq left)
    next
      case mid: (Some mid)
      show ?thesis
        by (cases "rowCells h (gridSize conf) ys")
          (simp_all add: columns_eq centre_eq left mid Cons.IH)
    qed
  qed
qed

lemma rows_layerCells:
  "rows h c conf [0..gridSize conf - 1] img =
     map_option (\<lambda>cells. drawCells conf c cells img) (layerCells h (gridSize conf))"
  by (simp add: rows_eq layerCells_def)

lemma drawCells_dims [simp]:
  "Dx (drawCells conf c cells img) = Dx img"
  "Dy (drawCells conf c cells img) = Dy img"
  "wellFormed (drawCells conf c cells img) = wellFormed img"
  by (induction cells arbitrary: img) simp_all

lemma RGBAAt_drawCells:
  assumes "wellFormed img"
  shows "RGBAAt (drawCells conf c cells img) px py =
           (if \<exists>p\<in>set cells. (px, py) \<in>
                 set (blockPixels (Dx img) (Dy img) (fst p) (snd p) (gridSize conf) (size' conf))
                   \<and> inBounds img px py
            then c else RGBAAt img px py)"
  using assms
proof (induction cells arbitrary: img)
  case Nil
  then show ?case by simp
next
  case (Cons p cells)
  then show ?case
    by (auto simp add: RGBAAt_drawPixel inBounds_def)
qed

subsection \<open>The layers\<close>

lemma layerColor_eq: "0 \<le> l \<Longrightarrow> layerColor conf h l = specLayerColor conf h (nat l)"
  by (auto simp add: layerColor_def specLayerColor_def Let_def nat_less_iff)

lemma layerLoop_later:
  "0 < l \<Longrightarrow>
     layerLoop conf (map int [l..<n]) (layerDigest input (l - 1)) img =
       specLayers conf input [l..<n] img"
proof (induction "n - l" arbitrary: l img)
  case 0
  then show ?case by simp
next
  case (Suc k)
  then have ln: "l < n" and k: "k = n - Suc l" by simp_all
  obtain l' where l': "l = Suc l'" using Suc.prems by (cases l) simp_all
  have "layerLoop conf (map int [Suc l..<n]) (layerDigest input l) img' =
       specLayers conf input [Suc l..<n] img'" for img'
    using Suc.hyps(1) [OF k, of img'] by simp
  then have IH: "layerLoop conf (map int [Suc (Suc l')..<n]) (generateHash (layerDigest input l')) =
       specLayers conf input [Suc (Suc l')..<n]"
    by (intro ext) (simp add: l')
  show ?case
    using ln Suc.prems
    by (simp add: upt_conv_Cons layerColor_eq IH l' Let_def nat_add_distrib del: upt_Suc)
qed

lemma upto_eq_map_upt: "[0..int n - 1] = map int [0..<n]"
proof (induction n)
  case 0
  then show ?case by simp
next
  case (Suc n)
  have "[0..int (Suc n) - 1] = [0..int n - 1] @ [int n]"
    using upto_rec2 [of 0 "int n"] by simp
  with Suc show ?case by simp
qed

lemma layerLoop_eq:
  "layerLoop conf [0..int n - 1] (generateHash input) img = specLayers conf input [0..<n] img"
proof (cases n)
  case 0
  then show ?thesis by simp
next
  case (Suc m)
  have later: "layerLoop conf (map int [Suc 0..<n]) (generateHash input) =
       specLayers conf input [Suc 0..<n]"
    using layerLoop_later [of "Suc 0" conf n input] by (intro ext) simp
  have "[0..<n] = 0 # [Suc 0..<n]"
    using Suc by (simp add: upt_conv_Cons del: upt_Suc)
  then show ?thesis
    using later
    by (simp add: upto_eq_map_upt layerColor_eq Let_def del: upt_Suc)
qed

lemma validOptions_default: "defaultOptions h = Some conf \<Longrightarrow> validOptions conf"
  by (auto simp add: defaultOptions_def validOptions_def split: Option.bind_splits)

lemma validOptions_exported:
  assumes "exported f" "validOptions conf" "f conf = Some conf'"
  shows "validOptions conf'"
  using assms
  by (induction rule: exported.induct)
    (auto simp add: validOptions_def WithSize_def WithGridSize_def WithBgColor_def
      WithFgColor_def WithLayers_def WithLayerColor_def Let_def split: if_splits)

lemma validOptions_applyOpts:
  assumes "list_all exported opts" "validOptions conf" "applyOpts opts conf = Some conf'"
  shows "validOptions conf'"
  using assms
proof (induction opts arbitrary: conf)
  case Nil
  then show ?case by simp
next
  case (Cons f opts)
  then show ?case
    by (auto split: Option.bind_splits dest: validOptions_exported)
qed

lemma upto_nat: "[0..n - 1] = map int [0..<nat n]"
proof (cases "0 \<le> n")
  case True
  then show ?thesis using upto_eq_map_upt [of "nat n"] by simp
next
  case False
  then show ?thesis by simp
qed

lemma Make_layers:
  "Make input opts =
     do { conf \<leftarrow> defaultOptions (layerDigest input 0);
          conf \<leftarrow> applyOpts opts conf;
          img \<leftarrow> NewRGBA (size' conf) (size' conf);
          specLayers conf input [0..<nat (layers conf)] (draw_Src_Uniform img (bgColor conf)) }"
proof -
  have "layerLoop conf [0..layers conf - 1] (generateHash input) img =
          specLayers conf input [0..<nat (layers conf)] img" for conf img
    using layerLoop_eq [of conf "nat (layers conf)" input img] upto_nat [of "layers conf"]
      upto_eq_map_upt [of "nat (layers conf)"]
    by simp
  then show ?thesis
    by (simp add: Make_def Let_def)
qed

lemma specLayerColor_digest:
  "specLayerColor conf (layerDigest input l) l =
     Some (if l < length (fgColors conf) \<and> fgColors conf ! l \<noteq> RGBA 0 0 0 0
           then fgColors conf ! l
           else RGBA (of_char (layerDigest input l ! 0)) (of_char (layerDigest input l ! 1))
                  (of_char (layerDigest input l ! 2)) 255)"
  by (simp add: specLayerColor_def hashColor_Some)

section \<open>The pattern follows the bits of the digest\<close>

text \<open>The digests of three layers, evaluated: the hash of an input, of that hash, and again.\<close>

lemma digest_example_0:
  "generateHash ''test@example.com'' = ''55502f40dc8b7c769880b10874abc9d0''"
  by code_simp

lemma digest_example_1:
  "generateHash ''55502f40dc8b7c769880b10874abc9d0'' = ''a0f4323e8c147271c5df78e905f9e09b''"
  by code_simp

lemma digest_example_2:
  "generateHash ''a0f4323e8c147271c5df78e905f9e09b'' = ''e7eb0a72c06642347e16856822201f08''"
  by code_simp

lemma cellOn_digest:
  assumes "0 \<le> g" "g \<le> 32"
  shows "cellOn (layerDigest input l) g x y \<longleftrightarrow>
           0 \<le> y \<and> y < g \<and> 0 \<le> x \<and> x < g \<and> hashBit (layerDigest input l) y (min x (g - 1 - x))"
  using assms by (simp add: cellOn_iff)

text \<open>
  Claim C2. In every layer (its digest is \<open>layerDigest input l\<close>, 32 bytes), for a grid of at
  most 32 rows, a row \<open>y\<close> and a left-half column \<open>x < g div 2\<close>: cell \<open>(x, y)\<close> is on exactly
  when bit \<open>x mod 8\<close> of byte \<open>y\<close> of the digest is set, and the mirror cell \<open>(g - 1 - x, y)\<close>
  is on exactly when \<open>(x, y)\<close> is. When \<open>g\<close> is odd the centre cell \<open>(g div 2, y)\<close> is on
  exactly when bit \<open>(g div 2) mod 8\<close> of byte \<open>y\<close> is set. The loop over the rows draws the
  cells of this pattern and no other.
\<close>

theorem pattern_follows_hash_bits:
  assumes "g \<le> 32" "0 \<le> y" "y < g" "0 \<le> x" "x < g div 2"
  shows
    "(cellOn (layerDigest input l) g x y \<longleftrightarrow>
        bit (of_char (layerDigest input l ! nat y) :: uint8) (nat (x mod 8))) \<and>
     (cellOn (layerDigest input l) g (g - 1 - x) y \<longleftrightarrow> cellOn (layerDigest input l) g x y) \<and>
     (odd g \<longrightarrow>
        (cellOn (layerDigest input l) g (g div 2) y \<longleftrightarrow>
           bit (of_char (layerDigest input l ! nat y) :: uint8) (nat ((g div 2) mod 8)))) \<and>
     (\<exists>cells. layerCells (layerDigest input l) g = Some cells \<and>
        (gridSize conf = g \<longrightarrow>
           rows (layerDigest input l) c conf [0..gridSize conf - 1] img
             = Some (drawCells conf c cells img)))"
proof (intro conjI impI)
  let ?h = "layerDigest input l"
  have g: "0 \<le> g" using assms by linarith
  have b: "x < g" "0 \<le> g - 1 - x" "g - 1 - x < g" "0 \<le> g div 2" "g div 2 < g"
    using assms by linarith+
  have m: "min x (g - 1 - x) = x" "min (g - 1 - x) (g - 1 - (g - 1 - x)) = x"
    using assms by linarith+
  show on: "cellOn ?h g x y \<longleftrightarrow> bit (of_char (?h ! nat y) :: uint8) (nat (x mod 8))"
    using assms g b by (simp add: cellOn_digest m hashBit_def)
  show "cellOn ?h g (g - 1 - x) y \<longleftrightarrow> cellOn ?h g x y"
    using assms g b by (simp add: cellOn_digest m)
  show "cellOn ?h g (g div 2) y \<longleftrightarrow>
          bit (of_char (?h ! nat y) :: uint8) (nat ((g div 2) mod 8))" if "odd g"
  proof -
    have "min (g div 2) (g - 1 - g div 2) = g div 2"
      using that by presburger
    then show ?thesis
      using assms g b by (simp add: cellOn_digest hashBit_def)
  qed
  have cells: "layerCells ?h g = Some (concat (map (rowOf ?h g) [0..g - 1]))"
    using g assms(1) by (simp add: layerCells_Some)
  show "\<exists>cells. layerCells ?h g = Some cells \<and>
        (gridSize conf = g \<longrightarrow>
           rows ?h c conf [0..gridSize conf - 1] img = Some (drawCells conf c cells img))"
    using cells by (auto simp add: rows_layerCells)
qed

theorem pattern_follows_hash_bits_witness:
  "(9::int) \<le> 32 \<and> (0::int) \<le> 0 \<and> (0::int) < 9 \<and> (0::int) < 9 div 2 \<and> odd (9::int) \<and>
   layerDigest ''test@example.com'' 0 = ''55502f40dc8b7c769880b10874abc9d0'' \<and>
   bit (of_char (CHR ''5'') :: uint8) 0 \<and>
   cellOn (layerDigest ''test@example.com'' 0) 9 0 0 \<and>
   cellOn (layerDigest ''test@example.com'' 0) 9 8 0 \<and>
   bit (of_char (CHR ''5'') :: uint8) 4 \<and>
   cellOn (layerDigest ''test@example.com'' 0) 9 4 0"
  using pattern_follows_hash_bits [of 9 0 0 "''test@example.com''" 0] digest_example_0
  by simp

text \<open>
  Claim C3. The pattern of every layer is symmetric: cell \<open>(x, y)\<close> is on exactly when cell
  \<open>(g - 1 - x, y)\<close> is on.
\<close>

theorem pattern_symmetric:
  "cellOn (layerDigest input l) g x y \<longleftrightarrow> cellOn (layerDigest input l) g (g - 1 - x) y"
proof -
  consider "g < 0" | "0 \<le> g" "g \<le> 32" | "32 < g" by linarith
  then show ?thesis
  proof cases
    case 1
    then show ?thesis by (simp add: cellOn_def layerCells_def)
  next
    case 2
    have "min (g - 1 - x) (g - 1 - (g - 1 - x)) = min x (g - 1 - x)" by linarith
    with 2 show ?thesis by (auto simp add: cellOn_digest)
  next
    case 3
    then show ?thesis by (simp add: cellOn_def layerCells_None)
  qed
qed

theorem pattern_symmetric_witness:
  "cellOn (layerDigest ''test@example.com'' 0) 10 2 2 \<and>
   cellOn (layerDigest ''test@example.com'' 0) 10 (10 - 1 - 2) 2"
proof -
  have "cellOn ''55502f40dc8b7c769880b10874abc9d0'' 10 2 2"
    by (subst cellOn_iff) (simp_all add: hashBit_def)
  then have "cellOn (layerDigest ''test@example.com'' 0) 10 2 2"
    by (simp add: digest_example_0)
  with pattern_symmetric [of "''test@example.com''" 0 10 2 2] show ?thesis by simp
qed

section \<open>Digest and colour of each layer\<close>

text \<open>
  Claim C7. \<open>Make\<close> draws the layers \<open>0, 1, ...\<close> in order on the background, layer \<open>l\<close>
  with the digest \<open>layerDigest input l\<close>: the hash of the input for layer 0, the hash of
  the previous layer's digest for a later layer. The colour of a layer is the caller's colour
  at its index when there is one and it is not the zero colour, and otherwise the first
  three bytes of the layer's own digest with alpha 255; this is the colour the loop of
  \<open>Make\<close> computes.
\<close>

theorem layers_use_chained_digests:
  "Make input opts =
     do { conf \<leftarrow> defaultOptions (layerDigest input 0);
          conf \<leftarrow> applyOpts opts conf;
          img \<leftarrow> NewRGBA (size' conf) (size' conf);
          specLayers conf input [0..<nat (layers conf)] (draw_Src_Uniform img (bgColor conf)) } \<and>
   layerDigest input 0 = generateHash input \<and>
   layerDigest input (Suc l) = generateHash (layerDigest input l) \<and>
   specLayerColor conf' (layerDigest input l) l =
     Some (if l < length (fgColors conf') \<and> fgColors conf' ! l \<noteq> RGBA 0 0 0 0
           then fgColors conf' ! l
           else RGBA (of_char (layerDigest input l ! 0)) (of_char (layerDigest input l ! 1))
                  (of_char (layerDigest input l ! 2)) 255) \<and>
   layerColor conf' (layerDigest input l) (int l) = specLayerColor conf' (layerDigest input l) l"
  using Make_layers [of input opts] specLayerColor_digest [of conf' input l]
  by (simp add: layerColor_eq)

theorem layers_use_chained_digests_witness:
  "Make ''test@example.com'' [WithLayers 2] =
     specLayers \<lparr>size' = 64, gridSize = 8, bgColor = RGBA 240 240 240 255,
                 fgColors = [RGBA 53 53 53 255], layers = 2\<rparr>
       ''test@example.com'' [0, 1] (draw_Src_Uniform (zeroRGBA 64 64) (RGBA 240 240 240 255)) \<and>
   layerDigest ''test@example.com'' 0 = ''55502f40dc8b7c769880b10874abc9d0'' \<and>
   layerDigest ''test@example.com'' 1 = ''a0f4323e8c147271c5df78e905f9e09b'' \<and>
   specLayerColor \<lparr>size' = 64, gridSize = 8, bgColor = RGBA 240 240 240 255,
                    fgColors = [RGBA 53 53 53 255], layers = 2\<rparr>
     (layerDigest ''test@example.com'' 1) 1 = Some (RGBA 97 48 102 255)"
proof -
  let ?c = "\<lparr>size' = 64, gridSize = 8, bgColor = RGBA 240 240 240 255,
             fgColors = [RGBA 53 53 53 255], layers = 2\<rparr>"
  have d0: "layerDigest ''test@example.com'' 0 = ''55502f40dc8b7c769880b10874abc9d0''"
    by (simp add: digest_example_0)
  have d1: "layerDigest ''test@example.com'' 1 = ''a0f4323e8c147271c5df78e905f9e09b''"
    by (simp add: digest_example_0 digest_example_1)
  have dflt: "defaultOptions (generateHash ''test@example.com'') =
      Some \<lparr>size' = 64, gridSize = 8, bgColor = RGBA 240 240 240 255,
             fgColors = [RGBA 53 53 53 255], layers = 1\<rparr>"
    by (simp add: digest_example_0 defaultOptions_def hashColor_def byteAt_def)
  have "Make ''test@example.com'' [WithLayers 2] =
     specLayers ?c ''test@example.com'' [0, 1]
       (draw_Src_Uniform (zeroRGBA 64 64) (RGBA 240 240 240 255))"
    using layers_use_chained_digests [of "''test@example.com''" "[WithLayers 2]" 0 ?c, THEN conjunct1]
    by (simp del: specLayers.simps add: dflt WithLayers_def numeral_2_eq_2 NewRGBA_square)
  moreover have "specLayerColor ?c (layerDigest ''test@example.com'' 1) 1 = Some (RGBA 97 48 102 255)"
    by (simp add: digest_example_0 digest_example_1 specLayerColor_def hashColor_def byteAt_def)
  ultimately show ?thesis using d0 d1 by simp
qed

section \<open>Completion of Make\<close>

lemma specLayers_completes:
  assumes "0 \<le> gridSize conf" "gridSize conf \<le> 32"
  shows "\<exists>img'. specLayers conf input ls img = Some img'"
proof (induction ls arbitrary: img)
  case Nil
  then show ?case by simp
next
  case (Cons l ls)
  have cells: "layerCells (layerDigest input l) (gridSize conf) =
      Some (concat (map (rowOf (layerDigest input l) (gridSize conf)) [0..gridSize conf - 1]))"
    using assms by (simp add: layerCells_Some)
  show ?case
    using Cons.IH
    by (simp only: specLayers.simps specLayerColor_digest rows_layerCells cells
        Option.bind.simps option.map)
qed

text \<open>
  \<open>Make\<close> returns an image when the rows of the grid fit the digest and the length of the
  buffer fits \<open>int\<close>, and panics in \<open>image.NewRGBA\<close> when the length does not fit.
\<close>

lemma Make_completes:
  assumes "list_all exported opts"
    and "defaultOptions (generateHash input) \<bind> applyOpts opts = Some conf"
    and "gridSize conf \<le> 32"
    and "4 * (size' conf * size' conf) < 2 ^ 63"
  shows "\<exists>img. Make input opts = Some img"
proof -
  from assms(2) obtain conf0 where conf0: "defaultOptions (generateHash input) = Some conf0"
    "applyOpts opts conf0 = Some conf"
    by (auto simp add: bind_eq_Some_conv)
  have valid: "validOptions conf"
    using validOptions_applyOpts [OF assms(1) validOptions_default [OF conf0(1)] conf0(2)] .
  then have "0 \<le> size' conf" by (simp add: validOptions_def)
  then have new: "NewRGBA (size' conf) (size' conf) = Some (zeroRGBA (size' conf) (size' conf))"
    using assms(4) by (rule NewRGBA_square)
  from valid have "0 \<le> gridSize conf" by (simp add: validOptions_def)
  from specLayers_completes [OF this assms(3)] show ?thesis
    using conf0 new by (simp add: Make_layers del: specLayers.simps)
qed

lemma Make_panics_huge_size:
  assumes "defaultOptions (generateHash input) \<bind> applyOpts opts = Some conf"
    and "2 ^ 63 \<le> 4 * (size' conf * size' conf)"
  shows "Make input opts = None"
proof -
  from assms(1) obtain conf0 where conf0: "defaultOptions (generateHash input) = Some conf0"
    "applyOpts opts conf0 = Some conf"
    by (auto simp add: bind_eq_Some_conv)
  from assms(2) have "NewRGBA (size' conf) (size' conf) = None"
    by (rule NewRGBA_huge)
  then show ?thesis
    using conf0 by (simp add: Make_layers del: specLayers.simps)
qed

section \<open>Compositing\<close>

lemma cellOn_Some:
  assumes "cellOn h g x y"
  obtains cells where "layerCells h g = Some cells" "(x, y) \<in> set cells"
  using assms by (auto simp add: cellOn_def split: option.splits)

lemma cellOn_bounds:
  assumes "cellOn h g x y"
  shows "0 \<le> x \<and> x < g \<and> 0 \<le> y \<and> y < g \<and> g \<le> int (length h)"
proof -
  have le: "g \<le> int (length h)"
  proof (rule ccontr)
    assume "\<not> g \<le> int (length h)"
    then have "layerCells h g = None" by (simp add: layerCells_None)
    with assms show False by (simp add: cellOn_def)
  qed
  have "0 \<le> g"
  proof (rule ccontr)
    assume "\<not> 0 \<le> g"
    then have "layerCells h g = Some []" by (simp add: layerCells_def)
    with assms show False by (simp add: cellOn_def)
  qed
  with le assms show ?thesis by (simp add: cellOn_iff)
qed

lemma block_inBounds:
  assumes "0 \<le> x" "x < g" "0 \<le> y" "y < g" "0 < s" "Dx img = s" "Dy img = s"
    and "(px, py) \<in> set (blockPixels s s x y g s)"
  shows "inBounds img px py"
proof -
  have "0 < g" using assms by linarith
  have "(px, py) \<in> (\<Union>x\<in>{0..<g}. \<Union>y\<in>{0..<g}. set (blockPixels s s x y g s))"
    using assms(1-4,8) by (intro UN_I [of x] UN_I [of y]) simp_all
  then have "(px, py) \<in> {0..<s} \<times> {0..<s}"
    by (simp only: blocks_cover [OF \<open>0 < g\<close> assms(5)])
  then show ?thesis using assms by (simp add: inBounds_def)
qed

lemma RGBAAt_drawCells_on:
  assumes "wellFormed img" "p \<in> set cells" "inBounds img px py"
    and "(px, py) \<in> set (blockPixels (Dx img) (Dy img) (fst p) (snd p) (gridSize conf) (size' conf))"
  shows "RGBAAt (drawCells conf c cells img) px py = c"
proof -
  have "\<exists>p\<in>set cells. (px, py) \<in>
      set (blockPixels (Dx img) (Dy img) (fst p) (snd p) (gridSize conf) (size' conf))
        \<and> inBounds img px py"
    using assms(2-4) by blast
  then show ?thesis
    by (simp only: RGBAAt_drawCells [OF assms(1)] if_True)
qed

lemma specLayers_two:
  assumes "specLayerColor conf (layerDigest input 0) 0 = Some c0"
    and "layerCells (layerDigest input 0) (gridSize conf) = Some cells0"
    and "specLayerColor conf (layerDigest input 1) 1 = Some c1"
    and "layerCells (layerDigest input 1) (gridSize conf) = Some cells1"
  shows "specLayers conf input [0, 1] img =
           Some (drawCells conf c1 cells1 (drawCells conf c0 cells0 img))"
  by (simp only: specLayers.simps assms rows_layerCells Option.bind.simps option.map)


lemma layerCells_bounds:
  assumes "layerCells h g = Some cells" "p \<in> set cells"
  shows "0 \<le> fst p \<and> fst p < g \<and> 0 \<le> snd p \<and> snd p < g"
proof -
  have "cellOn h g (fst p) (snd p)"
    using assms by (simp add: cellOn_def)
  from cellOn_bounds [OF this] show ?thesis by simp
qed

lemma RGBAAt_drawCells_off:
  assumes wf: "wellFormed img" "Dx img = size' conf" "Dy img = size' conf" "0 < size' conf"
    and cells: "\<forall>p\<in>set cells. 0 \<le> fst p \<and> fst p < gridSize conf \<and> 0 \<le> snd p \<and> snd p < gridSize conf"
    and cell: "0 \<le> x" "x < gridSize conf" "0 \<le> y" "y < gridSize conf" "(x, y) \<notin> set cells"
    and px: "(px, py) \<in> set (blockPixels (size' conf) (size' conf) x y (gridSize conf) (size' conf))"
  shows "RGBAAt (drawCells conf c cells img) px py = RGBAAt img px py"
proof -
  let ?g = "gridSize conf" and ?s = "size' conf"
  have "(px, py) \<notin> set (blockPixels ?s ?s (fst p) (snd p) ?g ?s)" if "p \<in> set cells" for p
  proof -
    have b: "0 \<le> fst p" "fst p < ?g" "0 \<le> snd p" "snd p < ?g"
      using cells that by simp_all
    have "(x, y) \<noteq> (fst p, snd p)"
      using that cell(5) by auto
    from blocks_disjoint [OF _ _ cell(1-4) b this, of ?s] wf(4) cell(1,2) px
    show ?thesis by auto
  qed
  then have "\<not> (\<exists>p\<in>set cells. (px, py) \<in>
      set (blockPixels (Dx img) (Dy img) (fst p) (snd p) ?g ?s) \<and> inBounds img px py)"
    by (simp add: wf(2,3))
  then show ?thesis
    by (simp only: RGBAAt_drawCells [OF wf(1)] if_False)
qed

lemma specLayers_three:
  assumes "specLayerColor conf (layerDigest input 0) 0 = Some c0"
    and "layerCells (layerDigest input 0) (gridSize conf) = Some cells0"
    and "specLayerColor conf (layerDigest input 1) 1 = Some c1"
    and "layerCells (layerDigest input 1) (gridSize conf) = Some cells1"
    and "specLayerColor conf (layerDigest input 2) 2 = Some c2"
    and "layerCells (layerDigest input 2) (gridSize conf) = Some cells2"
  shows "specLayers conf input [0, 1, 2] img =
           Some (drawCells conf c2 cells2 (drawCells conf c1 cells1 (drawCells conf c0 cells0 img)))"
  by (simp only: specLayers.simps assms rows_layerCells Option.bind.simps option.map)

text \<open>
  Claim C5. In a render of two or three layers by options built from the exported
  constructors, take a cell that is on in the pattern of layer 0 and in the pattern of
  layer 1 (and, when there is a third layer, off in that one). In the image that \<open>Make\<close>
  returns, every pixel of the cell's block has exactly the colour of layer 1, whatever its
  alpha channel: the later layer overwrites, nothing is blended.
\<close>

theorem later_layer_overwrites:
  assumes "list_all exported opts"
    and "defaultOptions (generateHash input) \<bind> applyOpts opts = Some conf"
    and "2 \<le> layers conf"
    and "cellOn (layerDigest input 0) (gridSize conf) x y"
    and "cellOn (layerDigest input 1) (gridSize conf) x y"
    and "layers conf = 3 \<longrightarrow> \<not> cellOn (layerDigest input 2) (gridSize conf) x y"
    and "(px, py) \<in> set (blockPixels (size' conf) (size' conf) x y (gridSize conf) (size' conf))"
    and "Make input opts = Some img"
  shows "\<exists>c1. layerColor conf (layerDigest input 1) 1 = Some c1 \<and> RGBAAt img px py = c1"
proof -
  let ?g = "gridSize conf" and ?s = "size' conf"
  let ?bg = "draw_Src_Uniform (zeroRGBA ?s ?s) (bgColor conf)"
  from assms(2) obtain conf0 where conf0: "defaultOptions (generateHash input) = Some conf0"
    "applyOpts opts conf0 = Some conf"
    by (auto simp add: bind_eq_Some_conv)
  have valid: "validOptions conf"
    using validOptions_applyOpts [OF assms(1) validOptions_default [OF conf0(1)] conf0(2)] .
  then have s: "0 < ?s" by (simp add: validOptions_def)
  from assms(8) conf0 obtain img0 where img0: "NewRGBA ?s ?s = Some img0"
    by (auto simp add: Make_layers bind_eq_Some_conv simp del: specLayers.simps)
  then have new: "NewRGBA ?s ?s = Some (zeroRGBA ?s ?s)"
    using NewRGBA_eq_Some [OF img0] by simp
  have b: "0 \<le> x" "x < ?g" "0 \<le> y" "y < ?g" "?g \<le> 32"
    using cellOn_bounds [OF assms(5)] by simp_all
  obtain cells0 where cells0: "layerCells (layerDigest input 0) ?g = Some cells0"
    using assms(4) by (rule cellOn_Some)
  obtain cells1 where cells1: "layerCells (layerDigest input 1) ?g = Some cells1"
    "(x, y) \<in> set cells1"
    using assms(5) by (rule cellOn_Some)
  obtain c0 where c0: "specLayerColor conf (layerDigest input 0) 0 = Some c0"
    using specLayerColor_digest [of conf input 0] by blast
  obtain c1 where c1: "specLayerColor conf (layerDigest input 1) 1 = Some c1"
    using specLayerColor_digest [of conf input 1] by blast
  let ?img1 = "drawCells conf c0 cells0 ?bg"
  let ?img2 = "drawCells conf c1 cells1 ?img1"
  have wf: "wellFormed ?img1" "Dx ?img1 = ?s" "Dy ?img1 = ?s"
    using s by (simp_all add: wellFormed_zeroRGBA)
  have col: "layerColor conf (layerDigest input 1) 1 = Some c1"
    using c1 layerColor_eq [of 1 conf "layerDigest input 1"] by simp
  have at2: "RGBAAt ?img2 px py = c1"
  proof -
    have inb: "inBounds ?img1 px py"
      using b(1-4) s wf(2,3) assms(7) by (rule block_inBounds)
    have blk: "(px, py) \<in> set (blockPixels (Dx ?img1) (Dy ?img1) (fst (x, y)) (snd (x, y)) ?g ?s)"
      using assms(7) by (simp only: wf(2,3) fst_conv snd_conv)
    show ?thesis
      using wf(1) cells1(2) inb blk by (rule RGBAAt_drawCells_on)
  qed
  have "layers conf = 2 \<or> layers conf = 3"
    using valid assms(3) by (simp add: validOptions_def) linarith
  then consider "layers conf = 2" | "layers conf = 3"
    by blast
  then show ?thesis
  proof cases
    case 1
    then have n: "[0..<nat (layers conf)] = [0, 1]"
      by (simp add: numeral_2_eq_2)
    have "Make input opts = specLayers conf input [0, 1] ?bg"
      using conf0 n new by (simp add: Make_layers del: specLayers.simps)
    then have "Make input opts = Some ?img2"
      by (simp only: specLayers_two [OF c0 cells0 c1 cells1(1)])
    with assms(8) have "img = ?img2" by simp
    with col at2 show ?thesis by simp
  next
    case 2
    then have n: "[0..<nat (layers conf)] = [0, 1, 2]"
      by (simp add: numeral_3_eq_3 numeral_2_eq_2)
    have g0: "0 \<le> ?g" using b by linarith
    obtain cells2 where cells2: "layerCells (layerDigest input 2) ?g = Some cells2"
      using g0 b(5) by (simp add: layerCells_Some)
    obtain c2 where c2: "specLayerColor conf (layerDigest input 2) 2 = Some c2"
      using specLayerColor_digest [of conf input 2] by blast
    let ?img3 = "drawCells conf c2 cells2 ?img2"
    have "Make input opts = specLayers conf input [0, 1, 2] ?bg"
      using conf0 n new by (simp add: Make_layers del: specLayers.simps)
    then have "Make input opts = Some ?img3"
      by (simp only: specLayers_three [OF c0 cells0 c1 cells1(1) c2 cells2])
    with assms(8) have make: "img = ?img3" by simp
    have off: "(x, y) \<notin> set cells2"
      using assms(6) 2 cells2 by (simp add: cellOn_def)
    have in_grid: "\<forall>p\<in>set cells2. 0 \<le> fst p \<and> fst p < ?g \<and> 0 \<le> snd p \<and> snd p < ?g"
      using layerCells_bounds [OF cells2] by blast
    have wf2: "wellFormed ?img2" "Dx ?img2 = ?s" "Dy ?img2 = ?s"
      using wf by simp_all
    have "RGBAAt ?img3 px py = RGBAAt ?img2 px py"
      using wf2 s in_grid b(1-4) off assms(7) by (rule RGBAAt_drawCells_off)
    with at2 make col show ?thesis by simp
  qed
qed

theorem later_layer_overwrites_witness:
  "list_all exported [WithLayers 3, WithLayerColor 1 10 20 30 128] \<and>
   defaultOptions (generateHash ''test@example.com'')
       \<bind> applyOpts [WithLayers 3, WithLayerColor 1 10 20 30 128]
     = Some \<lparr>size' = 64, gridSize = 8, bgColor = RGBA 240 240 240 255,
              fgColors = [RGBA 53 53 53 255, RGBA 10 20 30 128], layers = 3\<rparr> \<and>
   (2::int) \<le> 3 \<and>
   cellOn (layerDigest ''test@example.com'' 0) 8 1 4 \<and>
   cellOn (layerDigest ''test@example.com'' 1) 8 1 4 \<and>
   \<not> cellOn (layerDigest ''test@example.com'' 2) 8 1 4 \<and>
   (9, 33) \<in> set (blockPixels 64 64 1 4 8 64) \<and>
   (\<exists>img. Make ''test@example.com'' [WithLayers 3, WithLayerColor 1 10 20 30 128] = Some img \<and>
      RGBAAt img 9 33 = RGBA 10 20 30 128)"
proof -
  let ?opts = "[WithLayers 3, WithLayerColor 1 10 20 30 128]"
  let ?c = "\<lparr>size' = 64, gridSize = 8, bgColor = RGBA 240 240 240 255,
              fgColors = [RGBA 53 53 53 255, RGBA 10 20 30 128], layers = 3\<rparr>"
  have ex: "list_all exported ?opts"
    by (simp add: exported.intros)
  have conf: "defaultOptions (generateHash ''test@example.com'') \<bind> applyOpts ?opts = Some ?c"
    by (simp add: digest_example_0 defaultOptions_def hashColor_def byteAt_def WithLayers_def
        WithLayerColor_def expandColors_eq Let_def)
  have "cellOn ''55502f40dc8b7c769880b10874abc9d0'' 8 1 4"
    by (subst cellOn_iff) (simp_all add: hashBit_def)
  then have on0: "cellOn (layerDigest ''test@example.com'' 0) (gridSize ?c) 1 4"
    by (simp add: digest_example_0)
  have "cellOn ''a0f4323e8c147271c5df78e905f9e09b'' 8 1 4"
    by (subst cellOn_iff) (simp_all add: hashBit_def)
  then have on1: "cellOn (layerDigest ''test@example.com'' 1) (gridSize ?c) 1 4"
    by (simp add: digest_example_0 digest_example_1)
  have d2: "layerDigest ''test@example.com'' 2 = ''e7eb0a72c06642347e16856822201f08''"
    by (simp add: numeral_2_eq_2 digest_example_0 digest_example_1 digest_example_2)
  have "\<not> cellOn ''e7eb0a72c06642347e16856822201f08'' 8 1 4"
    by (subst cellOn_iff) (simp_all add: hashBit_def)
  then have off2: "\<not> cellOn (layerDigest ''test@example.com'' 2) (gridSize ?c) 1 4"
    by (simp only: d2) simp
  have "set (blockPixels 64 64 1 4 8 64) = {8..<16} \<times> {32..<40}"
    by (simp add: blockPixels_set scaled_div)
  then have blk: "(9, 33) \<in> set (blockPixels (size' ?c) (size' ?c) 1 4 (gridSize ?c) (size' ?c))"
    by simp
  have col: "layerColor ?c (layerDigest ''test@example.com'' 1) 1 = Some (RGBA 10 20 30 128)"
    by (simp add: layerColor_def)
  have l3: "2 \<le> layers ?c" by simp
  have "gridSize ?c \<le> 32" "4 * (size' ?c * size' ?c) < 2 ^ 63"
    by simp_all
  from Make_completes [OF ex conf this] obtain img
    where img: "Make ''test@example.com'' ?opts = Some img" by blast
  from later_layer_overwrites [OF ex conf l3 on0 on1 _ blk img] off2 col
  have "RGBAAt img 9 33 = RGBA 10 20 30 128"
    by auto
  with img have "\<exists>img. Make ''test@example.com'' ?opts = Some img \<and>
      RGBAAt img 9 33 = RGBA 10 20 30 128"
    by blast
  with ex conf on0 on1 off2 blk show ?thesis by simp
qed

section \<open>Grid sizes beyond the digest\<close>

text \<open>
  Claim C6. \<open>Make\<close> does not complete for every grid size that \<open>WithGridSize\<close> accepts: the
  loop over the rows reads \<open>currentHash[y]\<close> for every \<open>y\<close> below the grid size, and the hash has
  32 bytes. With options from the exported constructors that resolve to a grid size above
  32, \<open>Make\<close> panics: in the first layer, when \<open>image.NewRGBA\<close> has not already refused the
  size.
\<close>

theorem Make_panics_above_32_rows:
  assumes "list_all exported opts"
    and "defaultOptions (generateHash input) \<bind> applyOpts opts = Some conf"
    and "32 < gridSize conf"
  shows "Make input opts = None"
proof -
  from assms(2) obtain conf0 where conf0: "defaultOptions (generateHash input) = Some conf0"
    "applyOpts opts conf0 = Some conf"
    by (auto simp add: bind_eq_Some_conv)
  have "validOptions conf"
    using validOptions_applyOpts [OF assms(1) validOptions_default [OF conf0(1)] conf0(2)] .
  then have "1 \<le> layers conf" by (simp add: validOptions_def)
  then obtain n where n: "nat (layers conf) = Suc n"
    by (cases "nat (layers conf)") simp_all
  have ls: "[0..<nat (layers conf)] = 0 # [Suc 0..<Suc n]"
    unfolding n by (simp add: upt_conv_Cons del: upt_Suc)
  have cells: "layerCells (layerDigest input 0) (gridSize conf) = None"
    using assms(3) by (simp add: layerCells_None)
  have "specLayers conf input (0 # [Suc 0..<Suc n]) img = None" for img
    by (simp only: specLayers.simps specLayerColor_digest rows_layerCells cells
        Option.bind.simps option.map)
  then show ?thesis
    using conf0 ls
    by (cases "NewRGBA (size' conf) (size' conf)")
      (simp_all add: Make_layers del: specLayers.simps upt_Suc)
qed

theorem Make_panics_above_32_rows_witness:
  "list_all exported [WithGridSize 33] \<and>
   defaultOptions (generateHash ''test@example.com'') \<bind> applyOpts [WithGridSize 33]
     = Some \<lparr>size' = 64, gridSize = 33, bgColor = RGBA 240 240 240 255,
              fgColors = [RGBA 53 53 53 255], layers = 1\<rparr> \<and>
   (32::int) < 33 \<and>
   Make ''test@example.com'' [WithGridSize 33] = None"
proof -
  let ?c = "\<lparr>size' = 64, gridSize = 33, bgColor = RGBA 240 240 240 255,
              fgColors = [RGBA 53 53 53 255], layers = 1\<rparr>"
  have ex: "list_all exported [WithGridSize 33]"
    by (simp add: exported.intros)
  have conf: "defaultOptions (generateHash ''test@example.com'') \<bind> applyOpts [WithGridSize 33]
      = Some ?c"
    by (simp add: digest_example_0 defaultOptions_def hashColor_def byteAt_def WithGridSize_def)
  have g: "32 < gridSize ?c" by simp
  from Make_panics_above_32_rows [OF ex conf g] ex conf show ?thesis by simp
qed

lemma specLayers_dims:
  assumes "specLayers conf input ls img = Some img'"
  shows "Dx img' = Dx img \<and> Dy img' = Dy img \<and> wellFormed img' = wellFormed img"
  using assms
proof (induction ls arbitrary: img)
  case Nil
  then show ?case by simp
next
  case (Cons l ls)
  from Cons.prems obtain c img1 where
    "rows (layerDigest input l) c conf [0..gridSize conf - 1] img = Some img1"
    "specLayers conf input ls img1 = Some img'"
    by (auto simp add: bind_eq_Some_conv)
  moreover from this(1) obtain cells where "img1 = drawCells conf c cells img"
    by (auto simp add: rows_eq)
  ultimately show ?case
    using Cons.IH [of img1] by simp
qed

lemma Make_dims:
  assumes "defaultOptions (generateHash input) \<bind> applyOpts opts = Some conf"
    and "Make input opts = Some img"
  shows "Dx img = size' conf \<and> Dy img = size' conf"
proof -
  from assms(1) obtain conf0 where conf0: "defaultOptions (generateHash input) = Some conf0"
    "applyOpts opts conf0 = Some conf"
    by (auto simp add: bind_eq_Some_conv)
  from assms(2) conf0 obtain img0 where img0: "NewRGBA (size' conf) (size' conf) = Some img0"
    "specLayers conf input [0..<nat (layers conf)] (draw_Src_Uniform img0 (bgColor conf)) = Some img"
    by (auto simp add: Make_layers bind_eq_Some_conv simp del: specLayers.simps)
  from specLayers_dims [OF img0(2)] NewRGBA_eq_Some [OF img0(1)] show ?thesis
    by simp
qed

end
